theory Spec2Isabelle
  imports Main "HOL-Library.Sublist"
begin

section \<open>Strings as the agent uses them\<close>

text \<open>
  JavaScript strings are modelled as \<open>string\<close> (lists of 8-bit characters). Texts are
  taken to be ASCII: \<open>toLowerCase\<close> and \<open>toUpperCase\<close> map the letters A-Z and a-z and
  leave every other character alone, and \<open>trim\<close> strips the ASCII white space
  (tab, line feed, vertical tab, form feed, carriage return, space).
\<close>

definition upper_letters :: string where
  "upper_letters = ''ABCDEFGHIJKLMNOPQRSTUVWXYZ''"

definition lower_letters :: string where
  "lower_letters = ''abcdefghijklmnopqrstuvwxyz''"

definition is_upper :: "char \<Rightarrow> bool" where
  "is_upper c = (c \<in> set upper_letters)"

definition is_lower :: "char \<Rightarrow> bool" where
  "is_lower c = (c \<in> set lower_letters)"

definition lower_char :: "char \<Rightarrow> char" where
  "lower_char c = (case map_of (zip upper_letters lower_letters) c of Some d \<Rightarrow> d | None \<Rightarrow> c)"

definition upper_char :: "char \<Rightarrow> char" where
  "upper_char c = (case map_of (zip lower_letters upper_letters) c of Some d \<Rightarrow> d | None \<Rightarrow> c)"

definition toLowerCase :: "string \<Rightarrow> string" where
  "toLowerCase s = map lower_char s"

definition toUpperCase :: "string \<Rightarrow> string" where
  "toUpperCase s = map upper_char s"

definition is_space :: "char \<Rightarrow> bool" where
  "is_space c = (c \<in> set [CHR 0x09, CHR 0x0A, CHR 0x0B, CHR 0x0C, CHR 0x0D, CHR '' ''])"

definition trim :: "string \<Rightarrow> string" where
  "trim s = rev (dropWhile is_space (rev (dropWhile is_space s)))"

text \<open>\<open>s.substring(0, n)\<close> and \<open>s.slice(0, n)\<close> for a natural \<open>n\<close> are \<open>take n s\<close>;
  \<open>s.includes(t)\<close> is the contiguous-sublist test.\<close>

definition str_includes :: "string \<Rightarrow> string \<Rightarrow> bool" where
  "str_includes s t = sublist t s"

text \<open>\<open>s.replace('@', '')\<close> with a string pattern removes the first occurrence only.\<close>

definition strip_at :: "string \<Rightarrow> string" where
  "strip_at s = remove1 (CHR ''@'') s"


section \<open>Data model\<close>

text \<open>
  One element of the oracle's \<open>tweets\<close> array. The oracle's JSON is taken to have the
  shape the prompt asks for; an absent \<open>text\<close>, \<open>author\<close> or \<open>created_at\<close> is the empty
  string and an absent count is 0, which is what the code's \<open>|| ''\<close>, \<open>?.\<close> and
  \<open>|| 0\<close> make of them.
\<close>

record candidate =
  c_text :: string
  c_author :: string
  c_created_at :: string
  c_retweets :: nat
  c_likes :: nat

text \<open>The interface \<open>Tweet\<close> (fields prefixed, since \<open>id\<close> and \<open>text\<close> are taken).
  Its identifier is one of the template strings \<open>browser_<ms>_<index>\<close> and \<open>fallback_<ms>_<index>\<close>, kept as
  its parts.\<close>

datatype tweet_id = BrowserId int nat | FallbackId int nat

record Tweet =
  tw_id :: tweet_id
  tw_text :: string
  tw_created_at :: string
  tw_author :: string
  tw_author_followers :: nat
  tw_retweets :: nat
  tw_likes :: nat

record BreakingNewsItem =
  symbol :: string
  headline :: string
  bn_author :: string
  age_minutes :: "int option"
  is_breaking :: bool


section \<open>Deduplication (agent.ts, lines 233-252 and 324-331)\<close>

text \<open>\<open>(tweet.text || '').substring(0, 150).toLowerCase().trim()\<close>\<close>

definition dedup_key :: "string \<Rightarrow> string" where
  "dedup_key t = trim (toLowerCase (take 150 t))"

text \<open>
  The body of \<open>for (const tweet of tweets)\<close>: the session is the pair of the set
  \<open>seen\<close> and the array \<open>allTweets\<close>; the loop stops at the \<open>break\<close> once
  \<open>allTweets.length >= maxResults\<close>.
\<close>

fun add_tweets :: "nat \<Rightarrow> candidate list \<Rightarrow> string set \<times> candidate list
    \<Rightarrow> string set \<times> candidate list" where
  "add_tweets maxResults [] (seen, allTweets) = (seen, allTweets)"
| "add_tweets maxResults (tweet # rest) (seen, allTweets) =
     (let key = dedup_key (c_text tweet) in
      if key \<noteq> [] \<and> length key > 10 \<and> key \<notin> seen
      then (if length (allTweets @ [tweet]) \<ge> maxResults
            then (insert key seen, allTweets @ [tweet])
            else add_tweets maxResults rest (insert key seen, allTweets @ [tweet]))
      else add_tweets maxResults rest (seen, allTweets))"


section \<open>The collaborators and the agent's state\<close>

text \<open>
  The browser session, the extraction oracle and the clock are outside the agent. An
  environment fixes what each of them answers: calls that happen once per harvest have one
  answer, the others answer by the ordinal of the call. The image itself plays no part:
  what the oracle says about it is the environment's answer.
\<close>

datatype direction = Up | Down

text \<open>\<open>https://twitter.com/home\<close> and
  \<open>https://twitter.com/search?q=${encodeURIComponent(query)}\<close>, the latter kept as its
  query.\<close>

datatype url = Home | SearchUrl string

datatype error = ChromeNotRunning | CommandFailed | ScreenshotFailed

text \<open>\<open>browser.screenshot()\<close> throws or returns a path, which is empty when the image
  came from standard output and no file was left.\<close>

datatype shot = ShotFailed | Shot string

text \<open>The \<open>VisionAnalysisResult\<close> of \<open>extractTweetsFromScreenshot\<close>: \<open>success\<close> false,
  or parsed data with or without a \<open>tweets\<close> array.\<close>

datatype extraction = ExtractionFailed | Extracted "candidate list option"

record SnapshotElement =
  el_ref :: string
  el_tag :: string
  el_text :: string
  el_testid :: string

datatype event =
    IsConnected | ListTabs | SwitchTab nat | GetUrl | Open url | SetViewportHeight nat
  | Scroll direction nat | ScreenshotTaken string | ScreenshotError | Snapshot
  | CheckAuthentication | VerifySearchResults | ExtractTweets nat
  | Delay nat | RandomDelay | CleanupScreenshots

record env =
  chrome_connected :: bool
  tab_list :: "(nat \<times> string) list option"
  switch_ok :: bool
  current_url :: "string option"
  open_ok :: "nat \<Rightarrow> bool"
  shot_at :: "nat \<Rightarrow> shot"
  scroll_ok :: "nat \<Rightarrow> bool"
  snapshot_result :: "SnapshotElement list option"
  verify_at :: "nat \<Rightarrow> bool"
  extract_at :: "nat \<Rightarrow> extraction"
  now_at :: "nat \<Rightarrow> int"
  date_parse :: "string \<Rightarrow> int option"
  to_iso :: "int \<Rightarrow> string"

text \<open>
  The mutable state: the agent's two fields, the screenshot files that exist, the log of
  the calls made so far, and how many calls of each kind were made.
\<close>

record world =
  initialized :: bool
  screenshotPaths :: "string list"
  files :: "string set"
  trace :: "event list"
  n_open :: nat
  n_shot :: nat
  n_scroll :: nat
  n_verify :: nat
  n_extract :: nat
  n_now :: nat

text \<open>An \<open>async\<close> method either throws or returns, and the state it reached stays.\<close>

type_synonym 'a io = "world \<Rightarrow> (error + 'a) \<times> world"

definition io_return :: "'a \<Rightarrow> 'a io" where
  "io_return x = (\<lambda>w. (Inr x, w))"

definition io_throw :: "error \<Rightarrow> 'a io" where
  "io_throw e = (\<lambda>w. (Inl e, w))"

definition io_bind :: "'a io \<Rightarrow> ('a \<Rightarrow> 'b io) \<Rightarrow> 'b io" where
  "io_bind m f = (\<lambda>w. case m w of (Inl e, w') \<Rightarrow> (Inl e, w') | (Inr x, w') \<Rightarrow> f x w')"

definition io_seq :: "'a io \<Rightarrow> 'b io \<Rightarrow> 'b io" where
  "io_seq m k = io_bind m (\<lambda>_. k)"

definition io_catch :: "'a io \<Rightarrow> (error \<Rightarrow> 'a io) \<Rightarrow> 'a io" where
  "io_catch m h = (\<lambda>w. case m w of (Inl e, w') \<Rightarrow> h e w' | (Inr x, w') \<Rightarrow> (Inr x, w'))"

definition log :: "event \<Rightarrow> world \<Rightarrow> world" where
  "log ev w = w\<lparr>trace := trace w @ [ev]\<rparr>"

definition delay :: "nat \<Rightarrow> unit io" where
  "delay ms = (\<lambda>w. (Inr (), log (Delay ms) w))"

definition random_delay :: "unit io" where
  "random_delay = (\<lambda>w. (Inr (), log RandomDelay w))"

subsection \<open>browser-controller.ts\<close>

definition isConnected :: "env \<Rightarrow> bool io" where
  "isConnected E = (\<lambda>w. (Inr (chrome_connected E), log IsConnected w))"

definition listTabs :: "env \<Rightarrow> (nat \<times> string) list io" where
  "listTabs E = (\<lambda>w. (case tab_list E of None \<Rightarrow> Inl CommandFailed | Some tabs \<Rightarrow> Inr tabs,
     log ListTabs w))"

definition switchTab :: "env \<Rightarrow> nat \<Rightarrow> unit io" where
  "switchTab E tabId = (\<lambda>w. (if switch_ok E then Inr () else Inl CommandFailed,
     log (SwitchTab tabId) w))"

definition getCurrentUrl :: "env \<Rightarrow> string io" where
  "getCurrentUrl E = (\<lambda>w. (case current_url E of None \<Rightarrow> Inl CommandFailed | Some u \<Rightarrow> Inr u,
     log GetUrl w))"

definition browser_open :: "env \<Rightarrow> url \<Rightarrow> unit io" where
  "browser_open E u = (\<lambda>w. (if open_ok E (n_open w) then Inr () else Inl CommandFailed,
     log (Open u) (w\<lparr>n_open := Suc (n_open w)\<rparr>)))"

definition setViewportHeight :: "nat \<Rightarrow> unit io" where
  "setViewportHeight height = (\<lambda>w. (Inr (), log (SetViewportHeight height) w))"

definition browser_scroll :: "env \<Rightarrow> direction \<Rightarrow> nat \<Rightarrow> unit io" where
  "browser_scroll E dir pixels = (\<lambda>w. (if scroll_ok E (n_scroll w) then Inr () else Inl CommandFailed,
     log (Scroll dir pixels) (w\<lparr>n_scroll := Suc (n_scroll w)\<rparr>)))"

definition browser_snapshot :: "env \<Rightarrow> SnapshotElement list io" where
  "browser_snapshot E = (\<lambda>w. (case snapshot_result E of None \<Rightarrow> Inl CommandFailed
     | Some els \<Rightarrow> Inr els, log Snapshot w))"

text \<open>
  \<open>browser.screenshot()\<close> together with the line that follows every call of it in
  agent.ts, \<open>if (screenshotResult.path) this.screenshotPaths.push(screenshotResult.path)\<close>.
  A screenshot with a path leaves the file of that name.
\<close>

definition take_screenshot :: "env \<Rightarrow> unit io" where
  "take_screenshot E = (\<lambda>w.
     case shot_at E (n_shot w) of
       ShotFailed \<Rightarrow> (Inl ScreenshotFailed, log ScreenshotError (w\<lparr>n_shot := Suc (n_shot w)\<rparr>))
     | Shot path \<Rightarrow>
         (Inr (),
          if path \<noteq> []
          then log (ScreenshotTaken path)
                 (w\<lparr>n_shot := Suc (n_shot w), files := insert path (files w),
                    screenshotPaths := screenshotPaths w @ [path]\<rparr>)
          else log (ScreenshotTaken path) (w\<lparr>n_shot := Suc (n_shot w)\<rparr>)))"

text \<open>\<open>BrowserController.cleanupScreenshots\<close> removes every file of the working directory
  named \<open>twitter-screenshot-*.png\<close>.\<close>

definition is_screenshot_file :: "string \<Rightarrow> bool" where
  "is_screenshot_file f = (prefix ''twitter-screenshot-'' f \<and> suffix ''.png'' f)"

subsection \<open>llm-vision.ts\<close>

text \<open>\<open>analyzeScreenshot\<close> catches every failure of its own and reports it as
  \<open>success: false\<close>, so no oracle call throws. The answer of \<open>verifySearchResults\<close> is kept
  as the condition the agent tests, \<open>verify.success && verify.data?.results_loaded\<close>.\<close>

definition checkAuthentication :: "unit io" where
  "checkAuthentication = (\<lambda>w. (Inr (), log CheckAuthentication w))"

definition verifySearchResults :: "env \<Rightarrow> bool io" where
  "verifySearchResults E = (\<lambda>w. (Inr (verify_at E (n_verify w)),
     log VerifySearchResults (w\<lparr>n_verify := Suc (n_verify w)\<rparr>)))"

definition extractTweetsFromScreenshot :: "env \<Rightarrow> nat \<Rightarrow> extraction io" where
  "extractTweetsFromScreenshot E maxResults = (\<lambda>w. (Inr (extract_at E (n_extract w)),
     log (ExtractTweets maxResults) (w\<lparr>n_extract := Suc (n_extract w)\<rparr>)))"

definition date_now :: "env \<Rightarrow> int io" where
  "date_now E = (\<lambda>w. (Inr (now_at E (n_now w)), w\<lparr>n_now := Suc (n_now w)\<rparr>))"


section \<open>agent.ts\<close>

subsection \<open>cleanupScreenshots (lines 433-452)\<close>

text \<open>Every tracked path is unlinked (a missing file is ignored), the array is cleared,
  and the browser controller sweeps the directory.\<close>

definition cleanupScreenshots :: "unit io" where
  "cleanupScreenshots = (\<lambda>w. (Inr (),
     log CleanupScreenshots
       (w\<lparr>files := Set.filter (\<lambda>f. \<not> is_screenshot_file f) (files w - set (screenshotPaths w)),
          screenshotPaths := []\<rparr>)))"

subsection \<open>init (lines 40-102)\<close>

definition is_twitter_tab :: "nat \<times> string \<Rightarrow> bool" where
  "is_twitter_tab tab = (str_includes (snd tab) ''twitter.com'' \<or> str_includes (snd tab) ''x.com'')"

text \<open>The body of the \<open>try\<close> of lines 55-76.\<close>

definition find_twitter_tab :: "env \<Rightarrow> unit io" where
  "find_twitter_tab E =
     io_bind (listTabs E) (\<lambda>tabs.
       case find is_twitter_tab tabs of
         Some twitterTab \<Rightarrow>
           io_seq (switchTab E (fst twitterTab))
          (io_seq (delay 2000)
          (io_bind (getCurrentUrl E) (\<lambda>currentUrl.
             if \<not> str_includes currentUrl ''/home''
             then io_seq (browser_open E Home) (delay 3000)
             else io_return ())))
       | None \<Rightarrow> io_seq (browser_open E Home) (delay 5000))"

definition set_initialized :: "unit io" where
  "set_initialized = (\<lambda>w. (Inr (), w\<lparr>initialized := True\<rparr>))"

definition init :: "env \<Rightarrow> unit io" where
  "init E = (\<lambda>w.
     if initialized w then (Inr (), w)
     else
       io_bind (isConnected E) (\<lambda>connected.
         if \<not> connected then io_throw ChromeNotRunning
         else
           io_seq (io_catch (find_twitter_tab E)
                     (\<lambda>err. io_seq (browser_open E Home) (delay 5000)))
          (io_seq (take_screenshot E)
          (io_seq checkAuthentication
           set_initialized))) w)"

subsection \<open>searchTwitter: loading the results (lines 113-194)\<close>

text \<open>The \<open>while (verifyAttempts < maxVerifyAttempts)\<close> loop of lines 136-152, with
  \<open>maxVerifyAttempts = 8\<close>.\<close>

function verify_loop :: "env \<Rightarrow> nat \<Rightarrow> unit io" where
  "verify_loop E verifyAttempts =
     (if verifyAttempts < 8
      then io_bind (verifySearchResults E) (\<lambda>loaded.
             if loaded then io_return ()
             else io_seq (if verifyAttempts < 8 - 1
                          then io_seq (delay 3000) (take_screenshot E)
                          else io_return ())
                         (verify_loop E (Suc verifyAttempts)))
      else io_return ())"
  by pat_completeness auto
termination
  by (relation "measure (\<lambda>(E, verifyAttempts). 8 - verifyAttempts)") auto

declare verify_loop.simps [simp del]

text \<open>\<open>for (let i = 0; i < n; i++) { scroll(dir, pixels); delay(ms) }\<close> (lines 162-166 and
  172-175), by the number of rounds left.\<close>

primrec scroll_times :: "env \<Rightarrow> direction \<Rightarrow> nat \<Rightarrow> nat \<Rightarrow> nat \<Rightarrow> unit io" where
  "scroll_times E dir pixels ms 0 = io_return ()"
| "scroll_times E dir pixels ms (Suc n) =
     io_seq (browser_scroll E dir pixels) (io_seq (delay ms) (scroll_times E dir pixels ms n))"

text \<open>Lines 178-194: one more check, and a second one after a wait.\<close>

definition verify_before_extraction :: "env \<Rightarrow> unit io" where
  "verify_before_extraction E =
     io_seq (take_screenshot E)
    (io_bind (verifySearchResults E) (\<lambda>verifyCheck.
       if \<not> verifyCheck
       then io_seq (delay 5000)
           (io_seq (take_screenshot E)
           (io_bind (verifySearchResults E) (\<lambda>secondCheck. io_return ())))
       else io_return ()))"

text \<open>\<open>Math.max(5000, maxResults * 300)\<close> and \<open>Math.max(5, Math.ceil(maxResults / 2))\<close>.\<close>

definition load_results :: "env \<Rightarrow> string \<Rightarrow> nat \<Rightarrow> unit io" where
  "load_results E query maxResults =
     io_seq (browser_open E (SearchUrl query))
    (io_seq (delay 5000)
    (io_seq (setViewportHeight (max 5000 (maxResults * 300)))
    (io_seq (delay 2000)
    (io_seq (take_screenshot E)
    (io_seq (verify_loop E 0)
    (io_seq (scroll_times E Down 2500 3500 (max 5 ((maxResults + 1) div 2)))
    (io_seq (scroll_times E Up 5000 800 10)
    (io_seq (delay 3000)
            (verify_before_extraction E)))))))))"

subsection \<open>searchTwitter: the extraction loop (lines 196-308)\<close>

text \<open>The locals of the loop; \<open>scrollAttempts\<close> is passed beside them and
  \<open>scrollPosition\<close>, which is written and never read, is left out.\<close>

record session =
  seen :: "string set"
  allTweets :: "candidate list"
  consecutiveEmptyScreenshots :: nat
  lastTweetCount :: nat
  stuckCount :: nat

definition new_session :: session where
  "new_session = \<lparr>seen = {}, allTweets = [], consecutiveEmptyScreenshots = 0,
     lastTweetCount = 0, stuckCount = 0\<rparr>"

text \<open>Lines 272-276: the \<open>else\<close> of
  \<open>extraction.success && extraction.data?.tweets && extraction.data.tweets.length > 0\<close>.\<close>

definition no_tweets_found :: "session \<Rightarrow> session" where
  "no_tweets_found s =
     s\<lparr>consecutiveEmptyScreenshots := Suc (consecutiveEmptyScreenshots s),
       stuckCount := (if length (allTweets s) = lastTweetCount s
                      then Suc (stuckCount s) else stuckCount s)\<rparr>"

text \<open>Lines 230-277, what one oracle answer does to the locals.\<close>

definition record_extraction :: "nat \<Rightarrow> extraction \<Rightarrow> session \<Rightarrow> session" where
  "record_extraction maxResults extraction s =
     (case extraction of
        ExtractionFailed \<Rightarrow> no_tweets_found s
      | Extracted None \<Rightarrow> no_tweets_found s
      | Extracted (Some tweets) \<Rightarrow>
          if length tweets > 0
          then (let beforeCount = length (allTweets s);
                    merged = add_tweets maxResults tweets (seen s, allTweets s);
                    s1 = s\<lparr>seen := fst merged, allTweets := snd merged\<rparr>;
                    newTweets = length (allTweets s1) - beforeCount;
                    foundNewTweets = (newTweets > 0);
                    s2 = (if foundNewTweets
                          then s1\<lparr>consecutiveEmptyScreenshots := 0, stuckCount := 0\<rparr>
                          else s1\<lparr>consecutiveEmptyScreenshots := Suc (consecutiveEmptyScreenshots s1),
                                  stuckCount := (if length (allTweets s1) = lastTweetCount s1
                                                 then Suc (stuckCount s1) else 0)\<rparr>)
                in s2\<lparr>lastTweetCount := length (allTweets s2)\<rparr>)
          else no_tweets_found s)"

text \<open>Lines 211-283: the \<open>try\<close> with its \<open>catch (screenshotError)\<close>.\<close>

definition extract_step :: "env \<Rightarrow> nat \<Rightarrow> session \<Rightarrow> session io" where
  "extract_step E maxResults s =
     io_catch
       (io_seq (take_screenshot E)
       (io_bind (extractTweetsFromScreenshot E (maxResults * 3)) (\<lambda>extraction.
          io_return (record_extraction maxResults extraction s))))
       (\<lambda>screenshotError.
          io_return (s\<lparr>consecutiveEmptyScreenshots := Suc (consecutiveEmptyScreenshots s),
                       stuckCount := Suc (stuckCount s)\<rparr>))"

text \<open>Lines 286-293, with \<open>maxConsecutiveEmpty = 5\<close>.\<close>

definition aggressive_scroll :: "env \<Rightarrow> session \<Rightarrow> session io" where
  "aggressive_scroll E s =
     (if stuckCount s \<ge> 3 \<or> consecutiveEmptyScreenshots s \<ge> 5
      then io_seq (browser_scroll E Down 5000)
          (io_seq (delay 4000)
          (io_return (s\<lparr>consecutiveEmptyScreenshots := 0, stuckCount := 0\<rparr>)))
      else io_return s)"

text \<open>The \<open>while (allTweets.length < maxResults && scrollAttempts < maxScrollAttempts)\<close> of
  line 208, with \<open>maxScrollAttempts = 50\<close>; it returns \<open>scrollAttempts\<close> with the locals.\<close>

function extraction_loop :: "env \<Rightarrow> nat \<Rightarrow> nat \<Rightarrow> session \<Rightarrow> (nat \<times> session) io" where
  "extraction_loop E maxResults scrollAttempts s =
     (if length (allTweets s) < maxResults \<and> scrollAttempts < 50
      then io_bind (extract_step E maxResults s) (\<lambda>s1.
           io_bind (aggressive_scroll E s1) (\<lambda>s2.
             if length (allTweets s2) < maxResults
             then io_seq (browser_scroll E Down 3000)
                 (io_seq (delay 4000)
                 (extraction_loop E maxResults (Suc scrollAttempts) s2))
             else io_return (scrollAttempts, s2)))
      else io_return (scrollAttempts, s))"
  by pat_completeness auto
termination
  by (relation "measure (\<lambda>(E, maxResults, scrollAttempts, s). 50 - scrollAttempts)") auto

declare extraction_loop.simps [simp del]

subsection \<open>searchTwitter: the re-scan (lines 310-340)\<close>

text \<open>Lines 323-333: here an empty \<open>tweets\<close> array passes the test.\<close>

definition record_retry :: "nat \<Rightarrow> extraction \<Rightarrow> session \<Rightarrow> session" where
  "record_retry maxResults retryExtraction s =
     (case retryExtraction of
        Extracted (Some tweets) \<Rightarrow>
          (let merged = add_tweets maxResults tweets (seen s, allTweets s)
           in s\<lparr>seen := fst merged, allTweets := snd merged\<rparr>)
      | _ \<Rightarrow> s)"

function rescan_loop :: "env \<Rightarrow> nat \<Rightarrow> nat \<Rightarrow> session \<Rightarrow> session io" where
  "rescan_loop E maxResults retry s =
     (if retry < 3 \<and> length (allTweets s) < maxResults
      then io_seq (take_screenshot E)
          (io_bind (extractTweetsFromScreenshot E (maxResults * 2)) (\<lambda>retryExtraction.
             let s1 = record_retry maxResults retryExtraction s
             in io_seq (if length (allTweets s1) < maxResults
                        then io_seq (browser_scroll E Down 2000) (delay 2500)
                        else io_return ())
                       (rescan_loop E maxResults (Suc retry) s1)))
      else io_return s)"
  by pat_completeness auto
termination
  by (relation "measure (\<lambda>(E, maxResults, retry, s). 3 - retry)") auto

declare rescan_loop.simps [simp del]

definition rescan :: "env \<Rightarrow> nat \<Rightarrow> nat \<Rightarrow> session \<Rightarrow> session io" where
  "rescan E maxResults scrollAttempts s =
     (if length (allTweets s) < maxResults \<and> scrollAttempts < 50
      then io_seq (browser_scroll E Up 3000)
          (io_seq (delay 2000)
          (rescan_loop E maxResults 0 s))
      else io_return s)"

subsection \<open>searchTwitter: the result (lines 342-414) and the fallback (lines 457-484)\<close>

text \<open>The \<open>map\<close> callback of lines 361-369 and 396-404, element by element; each
  \<open>Date.now()\<close> and \<open>new Date()\<close> reads the clock.\<close>

fun to_tweets :: "env \<Rightarrow> nat \<Rightarrow> candidate list \<Rightarrow> Tweet list io" where
  "to_tweets E index [] = io_return []"
| "to_tweets E index (tweet # rest) =
     io_bind (date_now E) (\<lambda>ms.
     io_bind (if c_created_at tweet \<noteq> [] then io_return (c_created_at tweet)
              else io_bind (date_now E) (\<lambda>d. io_return (to_iso E d))) (\<lambda>created.
     io_bind (to_tweets E (Suc index) rest) (\<lambda>tweets.
       io_return
         (\<lparr>tw_id = BrowserId ms index, tw_text = c_text tweet, tw_created_at = created,
           tw_author = (if strip_at (c_author tweet) \<noteq> [] then strip_at (c_author tweet)
                        else ''unknown''),
           tw_author_followers = 0, tw_retweets = c_retweets tweet,
           tw_likes = c_likes tweet\<rparr> # tweets))))"

fun fallback_tweets :: "env \<Rightarrow> nat \<Rightarrow> SnapshotElement list \<Rightarrow> Tweet list io" where
  "fallback_tweets E i [] = io_return []"
| "fallback_tweets E i (el # rest) =
     io_bind (date_now E) (\<lambda>ms.
     io_bind (date_now E) (\<lambda>d.
     io_bind (fallback_tweets E (Suc i) rest) (\<lambda>tweets.
       io_return
         (\<lparr>tw_id = FallbackId ms i, tw_text = el_text el, tw_created_at = to_iso E d,
           tw_author = ''unknown'', tw_author_followers = 0, tw_retweets = 0,
           tw_likes = 0\<rparr> # tweets))))"

definition is_tweet_element :: "SnapshotElement \<Rightarrow> bool" where
  "is_tweet_element el = (el_tag el = ''article'' \<or> el_testid el = ''tweet'')"

definition extractTweetsFallback :: "env \<Rightarrow> nat \<Rightarrow> Tweet list io" where
  "extractTweetsFallback E maxResults =
     io_catch
       (io_bind (browser_snapshot E) (\<lambda>elements.
          let tweetElements = filter is_tweet_element elements
          in fallback_tweets E 0 (take (min (length tweetElements) maxResults) tweetElements)))
       (\<lambda>err. io_return [])"

definition finish :: "env \<Rightarrow> nat \<Rightarrow> session \<Rightarrow> Tweet list io" where
  "finish E maxResults s =
     (let uniqueTweets = take maxResults (allTweets s) in
      io_seq cleanupScreenshots
        (if length uniqueTweets = 0
         then io_seq (take_screenshot E)
             (io_bind (extractTweetsFromScreenshot E maxResults) (\<lambda>finalExtraction.
                case finalExtraction of
                  Extracted (Some (t # ts)) \<Rightarrow>
                    io_bind (to_tweets E 0 (take maxResults (t # ts))) (\<lambda>tweets.
                    io_seq cleanupScreenshots
                   (io_seq random_delay
                   (io_return tweets)))
                | _ \<Rightarrow>
                    io_bind (extractTweetsFallback E maxResults) (\<lambda>fallbackTweets.
                    io_seq cleanupScreenshots
                      (if length fallbackTweets > 0 then io_return fallbackTweets
                       else io_return []))))
         else io_bind (to_tweets E 0 (take maxResults uniqueTweets)) (\<lambda>tweets.
              io_seq cleanupScreenshots
             (io_seq random_delay
             (io_return tweets)))))"

subsection \<open>searchTwitter (lines 107-428)\<close>

definition search_body :: "env \<Rightarrow> string \<Rightarrow> nat \<Rightarrow> Tweet list io" where
  "search_body E query maxResults =
     io_seq (load_results E query maxResults)
    (io_bind (extraction_loop E maxResults 0 new_session) (\<lambda>looped.
     io_bind (rescan E maxResults (fst looped) (snd looped)) (\<lambda>s.
     finish E maxResults s)))"

definition searchTwitter :: "env \<Rightarrow> string \<Rightarrow> nat \<Rightarrow> Tweet list io" where
  "searchTwitter E query maxResults =
     io_seq (\<lambda>w. if \<not> initialized w then init E w else (Inr (), w))
       (io_catch (search_body E query maxResults)
          (\<lambda>err. io_seq (io_catch cleanupScreenshots (\<lambda>e. io_return ()))
                  (io_catch (extractTweetsFallback E maxResults)
                     (\<lambda>fallbackError. io_return []))))"

subsection \<open>checkBreakingNews (lines 489-533)\<close>

fun join_with :: "string \<Rightarrow> string list \<Rightarrow> string" where
  "join_with sep [] = []"
| "join_with sep [x] = x"
| "join_with sep (x # y # ys) = x @ sep @ join_with sep (y # ys)"

definition news_query :: "string list \<Rightarrow> string" where
  "news_query toCheck =
     ''('' @ join_with '' OR '' (map (\<lambda>s. ''$'' @ s) toCheck) @
     '') (from:FirstSquawk OR from:DeItaone OR from:Newsquawk) -is:retweet''"

text \<open>The predicate of \<open>toCheck.find\<close>, lines 509-510.\<close>

definition mentions :: "string \<Rightarrow> string \<Rightarrow> bool" where
  "mentions txt s =
     (str_includes (toUpperCase txt) (''$'' @ s) \<or>
      str_includes (toUpperCase txt) ('' '' @ s @ '' ''))"

definition isNewsAccount :: "string \<Rightarrow> bool" where
  "isNewsAccount a =
     (str_includes (toLowerCase a) ''firstsquawk'' \<or>
      str_includes (toLowerCase a) ''deitaone'' \<or>
      str_includes (toLowerCase a) ''newsquawk'')"

text \<open>
  \<open>Date.now() - new Date(tweet.created_at).getTime()\<close>: the environment's \<open>date_parse\<close> is
  \<open>None\<close> where JavaScript gives \<open>NaN\<close>, and every comparison with \<open>NaN\<close> is false.
  \<open>Math.round(tweetAge / 60000)\<close> rounds halves up. An empty \<open>mentionedSymbol\<close> is falsy.
\<close>

definition tweet_age :: "env \<Rightarrow> int \<Rightarrow> Tweet \<Rightarrow> int option" where
  "tweet_age E now tweet = map_option (\<lambda>t. now - t) (date_parse E (tw_created_at tweet))"

definition classify_tweet :: "env \<Rightarrow> string list \<Rightarrow> int \<Rightarrow> Tweet \<Rightarrow> BreakingNewsItem option" where
  "classify_tweet E toCheck now tweet =
     (let tweetAge = tweet_age E now tweet in
      if (case tweetAge of Some a \<Rightarrow> a > 1800000 | None \<Rightarrow> False) then None
      else case find (mentions (tw_text tweet)) toCheck of
             None \<Rightarrow> None
           | Some mentionedSymbol \<Rightarrow>
               if mentionedSymbol \<noteq> [] \<and> isNewsAccount (tw_author tweet)
               then Some \<lparr>symbol = mentionedSymbol,
                          headline = take 200 (tw_text tweet),
                          bn_author = tw_author tweet,
                          age_minutes = map_option (\<lambda>a. (a + 30000) div 60000) tweetAge,
                          is_breaking = (case tweetAge of Some a \<Rightarrow> a < 600000 | None \<Rightarrow> False)\<rparr>
               else None)"

fun news_loop :: "env \<Rightarrow> string list \<Rightarrow> Tweet list \<Rightarrow> BreakingNewsItem list io" where
  "news_loop E toCheck [] = io_return []"
| "news_loop E toCheck (tweet # rest) =
     io_bind (date_now E) (\<lambda>now.
     io_bind (news_loop E toCheck rest) (\<lambda>results.
       io_return (case classify_tweet E toCheck now tweet of
                    None \<Rightarrow> results
                  | Some item \<Rightarrow> item # results)))"

definition checkBreakingNews :: "env \<Rightarrow> string list \<Rightarrow> BreakingNewsItem list io" where
  "checkBreakingNews E symbols =
     (if length symbols = 0 then io_return []
      else (let toCheck = take 3 symbols in
            io_bind (searchTwitter E (news_query toCheck) 5) (\<lambda>tweets.
            news_loop E toCheck tweets)))"


section \<open>The HTTP front door: POST /twitter/search (lines 84-117 of the server)\<close>

text \<open>A value of the request body. Numbers are integers here; a fraction between 1 and
  50 would pass the handler's test as a number does.\<close>

datatype json = JNull | JBool bool | JNum int | JStr string | JArr "json list"

record search_request =
  req_query :: "json option"
  req_maxResults :: "json option"

datatype response =
    Ok200 "Tweet list" nat
  | BadRequest400 string
  | Error500 error

fun truthy :: "json \<Rightarrow> bool" where
  "truthy JNull = False"
| "truthy (JBool b) = b"
| "truthy (JNum n) = (n \<noteq> 0)"
| "truthy (JStr s) = (s \<noteq> [])"
| "truthy (JArr xs) = True"

text \<open>What the agent's comparisons, products and \<open>slice\<close> make of a value that passed the
  handler's test: a number is itself, and \<open>null\<close>, \<open>false\<close> and the empty string count
  as 0.\<close>

fun to_number :: "json \<Rightarrow> nat" where
  "to_number (JNum n) = nat n"
| "to_number v = 0"

definition search_handler :: "env \<Rightarrow> search_request \<Rightarrow> world \<Rightarrow> response \<times> world" where
  "search_handler E body w =
     (let query = req_query body;
          maxResults = (case req_maxResults body of None \<Rightarrow> JNum 10 | Some v \<Rightarrow> v)
      in case query of
           Some (JStr q) \<Rightarrow>
             if q = [] then (BadRequest400 ''Query is required and must be a string'', w)
             else if truthy maxResults \<and>
                     (case maxResults of JNum n \<Rightarrow> n < 1 \<or> n > 50 | _ \<Rightarrow> True)
             then (BadRequest400 ''maxResults must be a number between 1 and 50'', w)
             else (case searchTwitter E q (to_number maxResults) w of
                     (Inr tweets, w') \<Rightarrow> (Ok200 tweets (length tweets), w')
                   | (Inl err, w') \<Rightarrow> (Error500 err, w'))
         | _ \<Rightarrow> (BadRequest400 ''Query is required and must be a string'', w))"


section \<open>The specification's words\<close>






section \<open>Assertions about computations\<close>

text \<open>\<open>pres P m\<close>: whatever \<open>m\<close> does from a state with \<open>P\<close>, returning or throwing, the
  state it leaves has \<open>P\<close>. \<open>returns Q m\<close>: every value \<open>m\<close> returns has \<open>Q\<close>; \<open>ensures Q m\<close>: so has
  the value together with the state it is returned in.
  \<open>no_throw m\<close>: \<open>m\<close> returns from every state.\<close>

definition pres :: "(world \<Rightarrow> bool) \<Rightarrow> 'a io \<Rightarrow> bool" where
  "pres P m = (\<forall>w r w'. P w \<longrightarrow> m w = (r, w') \<longrightarrow> P w')"

definition returns :: "('a \<Rightarrow> bool) \<Rightarrow> 'a io \<Rightarrow> bool" where
  "returns Q m = (\<forall>w x w'. m w = (Inr x, w') \<longrightarrow> Q x)"

definition no_throw :: "'a io \<Rightarrow> bool" where
  "no_throw m = (\<forall>w. \<exists>x w'. m w = (Inr x, w'))"

definition ensures :: "('a \<Rightarrow> world \<Rightarrow> bool) \<Rightarrow> 'a io \<Rightarrow> bool" where
  "ensures Q m = (\<forall>w x w'. m w = (Inr x, w') \<longrightarrow> Q x w')"

text \<open>The calls that only log and count keep \<open>P\<close>; so do, besides, the screenshot, the
  cleanup and the write of \<open>initialized\<close>.\<close>

definition quiet_pres :: "(world \<Rightarrow> bool) \<Rightarrow> env \<Rightarrow> bool" where
  "quiet_pres P E =
     (pres P (isConnected E) \<and> pres P (listTabs E) \<and> (\<forall>i. pres P (switchTab E i)) \<and>
      pres P (getCurrentUrl E) \<and> (\<forall>u. pres P (browser_open E u)) \<and>
      (\<forall>h. pres P (setViewportHeight h)) \<and> (\<forall>d px. pres P (browser_scroll E d px)) \<and>
      pres P (browser_snapshot E) \<and>
      pres P checkAuthentication \<and> pres P (verifySearchResults E) \<and>
      (\<forall>n. pres P (extractTweetsFromScreenshot E n)) \<and> pres P (date_now E) \<and>
      (\<forall>ms. pres P (delay ms)) \<and> pres P random_delay)"

definition prims_pres :: "(world \<Rightarrow> bool) \<Rightarrow> env \<Rightarrow> bool" where
  "prims_pres P E =
     (quiet_pres P E \<and> pres P (take_screenshot E) \<and> pres P cleanupScreenshots \<and>
      pres P set_initialized)"


definition logged :: "event list \<Rightarrow> event \<Rightarrow> world \<Rightarrow> bool" where
  "logged t ev w = (\<exists>evs. trace w = t @ evs \<and> ev \<in> set evs)"

definition grown :: "event list \<Rightarrow> world \<Rightarrow> bool" where
  "grown t w = (\<exists>evs. trace w = t @ evs)"

definition session_inv :: "nat \<Rightarrow> session \<Rightarrow> bool" where
  "session_inv maxResults s =
     (length (allTweets s) \<le> maxResults \<and>
      distinct (map (\<lambda>t. dedup_key (c_text t)) (allTweets s)) \<and>
      seen s = set (map (\<lambda>t. dedup_key (c_text t)) (allTweets s)))"


section \<open>Concrete inputs\<close>

definition post :: "string \<Rightarrow> candidate" where
  "post t = \<lparr>c_text = t, c_author = ''@FirstSquawk'', c_created_at = [],
     c_retweets = 0, c_likes = 0\<rparr>"

text \<open>A session that has already taken one post.\<close>

definition one_post_session :: session where
  "one_post_session = \<lparr>seen = {''fed holds rates''},
     allTweets = [post ''Fed holds rates''],
     consecutiveEmptyScreenshots = 0, lastTweetCount = 1, stuckCount = 0\<rparr>"

definition stuck_session :: session where
  "stuck_session = \<lparr>seen = {''fed holds rates''},
     allTweets = [post ''Fed holds rates''],
     consecutiveEmptyScreenshots = 3, lastTweetCount = 1, stuckCount = 3\<rparr>"

text \<open>A browser that answers every command and an oracle that sees the same two posts in
  every screenshot; every timestamp parses to the epoch and the clock stands at four
  minutes.\<close>

definition steady_env :: env where
  "steady_env = \<lparr>chrome_connected = True, tab_list = Some [], switch_ok = True,
     current_url = Some ''https://twitter.com/home'',
     open_ok = (\<lambda>n. True), shot_at = (\<lambda>n. Shot ''twitter-screenshot-1.png''),
     scroll_ok = (\<lambda>n. True), snapshot_result = Some [], verify_at = (\<lambda>n. True),
     extract_at = (\<lambda>n. Extracted (Some [post ''Fed holds rates'',
                                          post ''$AAPL beats est''])),
     now_at = (\<lambda>n. 240000), date_parse = (\<lambda>s. Some 0),
     to_iso = (\<lambda>t. ''1970-01-01T00:04:00.000Z'')\<rparr>"

definition ready_world :: world where
  "ready_world = \<lparr>initialized = True, screenshotPaths = [], files = {}, trace = [],
     n_open = 0, n_shot = 0, n_scroll = 0, n_verify = 0, n_extract = 0, n_now = 0\<rparr>"


text \<open>The same browser with an oracle that reports, in other letters, the post the
  session already holds.\<close>

definition repeat_env :: env where
  "repeat_env = steady_env\<lparr>extract_at := (\<lambda>n. Extracted (Some [post '' FED HOLDS RATES '']))\<rparr>"


text \<open>The same browser with an oracle that sees five posts at once.\<close>

definition five_posts :: "candidate list" where
  "five_posts = [post ''Fed holds rates'', post ''$AAPL beats est'', post ''$NVDA hits record'',
     post ''$TSLA recall news'', post ''Oil slides 3 pct'']"

definition news_env :: env where
  "news_env = steady_env\<lparr>extract_at := (\<lambda>n. Extracted (Some five_posts))\<rparr>"


text \<open>What a harvest of five with that oracle returns, and the log it leaves.\<close>

definition tweet_of :: "nat \<Rightarrow> string \<Rightarrow> Tweet" where
  "tweet_of i t = \<lparr>tw_id = BrowserId 240000 i, tw_text = t,
     tw_created_at = ''1970-01-01T00:04:00.000Z'', tw_author = ''FirstSquawk'',
     tw_author_followers = 0, tw_retweets = 0, tw_likes = 0\<rparr>"

definition five_tweets :: "Tweet list" where
  "five_tweets = [tweet_of 0 ''Fed holds rates'', tweet_of 1 ''$AAPL beats est'',
     tweet_of 2 ''$NVDA hits record'', tweet_of 3 ''$TSLA recall news'',
     tweet_of 4 ''Oil slides 3 pct'']"

definition harvest_trace :: "string \<Rightarrow> event list" where
  "harvest_trace q =
     [Open (SearchUrl q), Delay 5000, SetViewportHeight 5000, Delay 2000,
      ScreenshotTaken ''twitter-screenshot-1.png'', VerifySearchResults,
      Scroll Down 2500, Delay 3500, Scroll Down 2500, Delay 3500, Scroll Down 2500, Delay 3500,
      Scroll Down 2500, Delay 3500, Scroll Down 2500, Delay 3500,
      Scroll Up 5000, Delay 800, Scroll Up 5000, Delay 800, Scroll Up 5000, Delay 800,
      Scroll Up 5000, Delay 800, Scroll Up 5000, Delay 800, Scroll Up 5000, Delay 800,
      Scroll Up 5000, Delay 800, Scroll Up 5000, Delay 800, Scroll Up 5000, Delay 800,
      Scroll Up 5000, Delay 800, Delay 3000,
      ScreenshotTaken ''twitter-screenshot-1.png'', VerifySearchResults,
      ScreenshotTaken ''twitter-screenshot-1.png'', ExtractTweets 15,
      CleanupScreenshots, CleanupScreenshots, RandomDelay]"

definition harvest_world :: "string \<Rightarrow> world" where
  "harvest_world q = \<lparr>initialized = True, screenshotPaths = [], files = {},
     trace = harvest_trace q, n_open = 1, n_shot = 3, n_scroll = 15, n_verify = 2,
     n_extract = 1, n_now = 10\<rparr>"


text \<open>An agent that has not run \<open>init\<close> yet; a browser that is connected but whose
  screenshots fail; and no browser at all.\<close>

definition fresh_world :: world where
  "fresh_world = ready_world\<lparr>initialized := False\<rparr>"

definition blind_env :: env where
  "blind_env = steady_env\<lparr>shot_at := (\<lambda>n. ShotFailed)\<rparr>"

definition offline_env :: env where
  "offline_env = steady_env\<lparr>chrome_connected := False\<rparr>"


text \<open>A browser where the search page cannot be opened and whose structural snapshot
  shows the same article twice; and an oracle that sees nothing for fifty screenshots and
  then the same post twice.\<close>

definition article :: "string \<Rightarrow> SnapshotElement" where
  "article t = \<lparr>el_ref = ''@e1'', el_tag = ''article'', el_text = t, el_testid = []\<rparr>"

definition fallback_tweet_of :: "nat \<Rightarrow> string \<Rightarrow> Tweet" where
  "fallback_tweet_of i t = \<lparr>tw_id = FallbackId 240000 i, tw_text = t,
     tw_created_at = ''1970-01-01T00:04:00.000Z'', tw_author = ''unknown'',
     tw_author_followers = 0, tw_retweets = 0, tw_likes = 0\<rparr>"

definition stale_env :: env where
  "stale_env = steady_env\<lparr>open_ok := (\<lambda>n. False),
     snapshot_result := Some [article ''Fed holds rates'', article ''Fed holds rates'']\<rparr>"

definition late_env :: env where
  "late_env = steady_env\<lparr>extract_at := (\<lambda>n. if n < 50 then Extracted (Some [])
     else Extracted (Some [post ''Fed holds rates'', post ''Fed holds rates'']))\<rparr>"










section \<open>Evaluation\<close>

lemmas str_eval = dedup_key_def toLowerCase_def toUpperCase_def lower_char_def upper_char_def
  upper_letters_def lower_letters_def trim_def is_space_def

lemmas io_eval = io_return_def io_throw_def io_bind_def io_seq_def io_catch_def log_def
  delay_def random_delay_def

lemmas browser_eval = isConnected_def listTabs_def switchTab_def getCurrentUrl_def
  browser_open_def setViewportHeight_def browser_scroll_def browser_snapshot_def
  take_screenshot_def checkAuthentication_def verifySearchResults_def
  extractTweetsFromScreenshot_def date_now_def cleanupScreenshots_def

text \<open>The environments are read field by field.\<close>

lemma steady_env_sel:
  "chrome_connected steady_env = True"
  "tab_list steady_env = Some []"
  "switch_ok steady_env = True"
  "current_url steady_env = Some ''https://twitter.com/home''"
  "open_ok steady_env = (\<lambda>n. True)"
  "shot_at steady_env = (\<lambda>n. Shot ''twitter-screenshot-1.png'')"
  "scroll_ok steady_env = (\<lambda>n. True)"
  "snapshot_result steady_env = Some []"
  "verify_at steady_env = (\<lambda>n. True)"
  "extract_at steady_env =
     (\<lambda>n. Extracted (Some [post ''Fed holds rates'', post ''$AAPL beats est'']))"
  "now_at steady_env = (\<lambda>n. 240000)"
  "date_parse steady_env = (\<lambda>s. Some 0)"
  "to_iso steady_env = (\<lambda>t. ''1970-01-01T00:04:00.000Z'')"
  by (simp_all add: steady_env_def)

lemma repeat_env_sel:
  "chrome_connected repeat_env = True"
  "tab_list repeat_env = Some []"
  "switch_ok repeat_env = True"
  "current_url repeat_env = Some ''https://twitter.com/home''"
  "open_ok repeat_env = (\<lambda>n. True)"
  "shot_at repeat_env = (\<lambda>n. Shot ''twitter-screenshot-1.png'')"
  "scroll_ok repeat_env = (\<lambda>n. True)"
  "snapshot_result repeat_env = Some []"
  "verify_at repeat_env = (\<lambda>n. True)"
  "extract_at repeat_env = (\<lambda>n. Extracted (Some [post '' FED HOLDS RATES '']))"
  "now_at repeat_env = (\<lambda>n. 240000)"
  "date_parse repeat_env = (\<lambda>s. Some 0)"
  "to_iso repeat_env = (\<lambda>t. ''1970-01-01T00:04:00.000Z'')"
  by (simp_all add: repeat_env_def steady_env_sel)

lemma news_env_sel:
  "chrome_connected news_env = True"
  "tab_list news_env = Some []"
  "switch_ok news_env = True"
  "current_url news_env = Some ''https://twitter.com/home''"
  "open_ok news_env = (\<lambda>n. True)"
  "shot_at news_env = (\<lambda>n. Shot ''twitter-screenshot-1.png'')"
  "scroll_ok news_env = (\<lambda>n. True)"
  "snapshot_result news_env = Some []"
  "verify_at news_env = (\<lambda>n. True)"
  "extract_at news_env = (\<lambda>n. Extracted (Some five_posts))"
  "now_at news_env = (\<lambda>n. 240000)"
  "date_parse news_env = (\<lambda>s. Some 0)"
  "to_iso news_env = (\<lambda>t. ''1970-01-01T00:04:00.000Z'')"
  by (simp_all add: news_env_def steady_env_sel)

lemma blind_env_sel:
  "chrome_connected blind_env = True"
  "tab_list blind_env = Some []"
  "switch_ok blind_env = True"
  "current_url blind_env = Some ''https://twitter.com/home''"
  "open_ok blind_env = (\<lambda>n. True)"
  "shot_at blind_env = (\<lambda>n. ShotFailed)"
  "scroll_ok blind_env = (\<lambda>n. True)"
  "snapshot_result blind_env = Some []"
  "verify_at blind_env = (\<lambda>n. True)"
  by (simp_all add: blind_env_def steady_env_sel)

lemma offline_env_sel:
  "chrome_connected offline_env = False"
  by (simp_all add: offline_env_def)

lemma stale_env_sel:
  "open_ok stale_env = (\<lambda>n. False)"
  "snapshot_result stale_env =
     Some [article ''Fed holds rates'', article ''Fed holds rates'']"
  "now_at stale_env = (\<lambda>n. 240000)"
  "to_iso stale_env = (\<lambda>t. ''1970-01-01T00:04:00.000Z'')"
  by (simp_all add: stale_env_def steady_env_sel)

lemma late_env_sel:
  "open_ok late_env = (\<lambda>n. True)"
  "shot_at late_env = (\<lambda>n. Shot ''twitter-screenshot-1.png'')"
  "scroll_ok late_env = (\<lambda>n. True)"
  "verify_at late_env = (\<lambda>n. True)"
  "extract_at late_env = (\<lambda>n. if n < 50 then Extracted (Some [])
     else Extracted (Some [post ''Fed holds rates'', post ''Fed holds rates'']))"
  "now_at late_env = (\<lambda>n. 240000)"
  "to_iso late_env = (\<lambda>t. ''1970-01-01T00:04:00.000Z'')"
  by (simp_all add: late_env_def steady_env_sel)

lemmas env_eval = steady_env_sel repeat_env_sel news_env_sel blind_env_sel offline_env_sel
  stale_env_sel late_env_sel

lemmas input_eval = post_def one_post_session_def stuck_session_def
  ready_world_def five_posts_def tweet_of_def five_tweets_def
  harvest_trace_def harvest_world_def fresh_world_def article_def fallback_tweet_of_def
  env_eval


lemma key_fed: "dedup_key ''Fed holds rates'' = ''fed holds rates''"
  by (simp add: str_eval)

lemma key_fed_upper: "dedup_key '' FED HOLDS RATES '' = ''fed holds rates''"
  by (simp add: str_eval)

lemma key_aapl: "dedup_key ''$AAPL beats est'' = ''$aapl beats est''"
  by (simp add: str_eval)

lemma key_short: "dedup_key ''too short'' = ''too short''"
  by (simp add: str_eval)

lemma key_nvda: "dedup_key ''$NVDA hits record'' = ''$nvda hits record''"
  by (simp add: str_eval)

lemma key_tsla: "dedup_key ''$TSLA recall news'' = ''$tsla recall news''"
  by (simp add: str_eval)

lemma key_oil: "dedup_key ''Oil slides 3 pct'' = ''oil slides 3 pct''"
  by (simp add: str_eval)

lemmas key_eval = key_fed key_fed_upper key_aapl key_short key_nvda key_tsla key_oil


lemma scroll_times_unfold:
  "scroll_times E dir pixels ms n =
     (if n = 0 then io_return ()
      else io_seq (browser_scroll E dir pixels)
             (io_seq (delay ms) (scroll_times E dir pixels ms (n - 1))))"
  by (cases n) simp_all

lemmas search_eval = searchTwitter_def search_body_def load_results_def
  verify_before_extraction_def extract_step_def record_extraction_def aggressive_scroll_def
  rescan_def finish_def new_session_def no_tweets_found_def record_retry_def
  extractTweetsFallback_def is_tweet_element_def init_def find_twitter_tab_def
  set_initialized_def scroll_times_unfold verify_loop.simps extraction_loop.simps
  rescan_loop.simps

lemmas news_eval = mentions_def isNewsAccount_def str_includes_def sublist_code
  classify_tweet_def tweet_age_def

text \<open>One whole harvest, step by step: the target of five is met by the first answer.\<close>

lemma news_env_harvest:
  "searchTwitter news_env q 5 ready_world = (Inr five_tweets, harvest_world q)"
  by (simp add: search_eval io_eval browser_eval input_eval key_eval Let_def strip_at_def)


section \<open>Invariants through the whole harvest\<close>

subsection \<open>Rules for pres\<close>

lemma pres_return: "pres P (io_return x)"
  by (simp add: pres_def io_return_def)

lemma pres_throw: "pres P (io_throw e)"
  by (simp add: pres_def io_throw_def)

lemma pres_bind:
  assumes "pres P m" and "\<And>x. pres P (f x)"
  shows "pres P (io_bind m f)"
  unfolding pres_def
proof (intro allI impI)
  fix w r w' assume P: "P w" and run: "io_bind m f w = (r, w')"
  obtain r1 w1 where m: "m w = (r1, w1)" by (cases "m w")
  from assms(1) P m have P1: "P w1" unfolding pres_def by blast
  show "P w'"
  proof (cases r1)
    case (Inl e)
    with run m have "w' = w1" by (simp add: io_bind_def)
    with P1 show ?thesis by simp
  next
    case (Inr x)
    with run m have "f x w1 = (r, w')" by (simp add: io_bind_def)
    with assms(2)[of x] P1 show ?thesis unfolding pres_def by blast
  qed
qed

lemma pres_seq: "pres P m \<Longrightarrow> pres P k \<Longrightarrow> pres P (io_seq m k)"
  by (simp add: io_seq_def pres_bind)

lemma pres_catch:
  assumes "pres P m" and "\<And>e. pres P (h e)"
  shows "pres P (io_catch m h)"
  unfolding pres_def
proof (intro allI impI)
  fix w r w' assume P: "P w" and run: "io_catch m h w = (r, w')"
  obtain r1 w1 where m: "m w = (r1, w1)" by (cases "m w")
  from assms(1) P m have P1: "P w1" unfolding pres_def by blast
  show "P w'"
  proof (cases r1)
    case (Inr x)
    with run m have "w' = w1" by (simp add: io_catch_def)
    with P1 show ?thesis by simp
  next
    case (Inl e)
    with run m have "h e w1 = (r, w')" by (simp add: io_catch_def)
    with assms(2)[of e] P1 show ?thesis unfolding pres_def by blast
  qed
qed

lemma pres_if: "(c \<Longrightarrow> pres P a) \<Longrightarrow> (\<not> c \<Longrightarrow> pres P b) \<Longrightarrow> pres P (if c then a else b)"
  by simp

lemma pres_case_option:
  "pres P a \<Longrightarrow> (\<And>y. pres P (b y)) \<Longrightarrow> pres P (case x of None \<Rightarrow> a | Some y \<Rightarrow> b y)"
  by (cases x) simp_all

lemma pres_case_list:
  "pres P a \<Longrightarrow> (\<And>y ys. pres P (b y ys)) \<Longrightarrow> pres P (case x of [] \<Rightarrow> a | y # ys \<Rightarrow> b y ys)"
  by (cases x) simp_all

lemma pres_case_extraction:
  "pres P a \<Longrightarrow> (\<And>y. pres P (b y)) \<Longrightarrow>
   pres P (case x of ExtractionFailed \<Rightarrow> a | Extracted y \<Rightarrow> b y)"
  by (cases x) simp_all

lemma pres_Let: "(\<And>x. x = v \<Longrightarrow> pres P (f x)) \<Longrightarrow> pres P (Let v f)"
  by simp

lemmas pres_rules = pres_return pres_throw pres_bind pres_seq pres_catch pres_if
  pres_case_option pres_case_list pres_case_extraction pres_Let

lemma quiet_presD:
  assumes "quiet_pres P E"
  shows "pres P (isConnected E)" "pres P (listTabs E)" "pres P (switchTab E i)"
    "pres P (getCurrentUrl E)" "pres P (browser_open E u)" "pres P (setViewportHeight h)"
    "pres P (browser_scroll E d px)" "pres P (browser_snapshot E)"
    "pres P checkAuthentication" "pres P (verifySearchResults E)"
    "pres P (extractTweetsFromScreenshot E n)" "pres P (date_now E)" "pres P (delay ms)"
    "pres P random_delay"
  using assms by (simp_all add: quiet_pres_def)

lemma prims_pres_quiet: "prims_pres P E \<Longrightarrow> quiet_pres P E"
  by (simp add: prims_pres_def)

lemma prims_presD:
  assumes "prims_pres P E"
  shows "pres P (isConnected E)" "pres P (listTabs E)" "pres P (switchTab E i)"
    "pres P (getCurrentUrl E)" "pres P (browser_open E u)" "pres P (setViewportHeight h)"
    "pres P (browser_scroll E d px)" "pres P (browser_snapshot E)"
    "pres P checkAuthentication" "pres P (verifySearchResults E)"
    "pres P (extractTweetsFromScreenshot E n)" "pres P (date_now E)" "pres P (delay ms)"
    "pres P random_delay" "pres P (take_screenshot E)"
    "pres P cleanupScreenshots" "pres P set_initialized"
  using assms quiet_presD[OF prims_pres_quiet[OF assms]] by (simp_all add: prims_pres_def)

lemma pres_tab_opening:
  "quiet_pres P E \<Longrightarrow>
   pres P (io_catch (find_twitter_tab E) (\<lambda>err. io_seq (browser_open E Home) (delay 5000)))"
  unfolding find_twitter_tab_def
  by (intro pres_rules quiet_presD)

lemma pres_init: 
  assumes "prims_pres P E" shows "pres P (init E)"
proof -
  have "pres P (io_bind (isConnected E) (\<lambda>connected.
         if \<not> connected then io_throw ChromeNotRunning
         else
           io_seq (io_catch (find_twitter_tab E)
                     (\<lambda>err. io_seq (browser_open E Home) (delay 5000)))
          (io_seq (take_screenshot E)
          (io_seq checkAuthentication
           set_initialized))))"
    by (intro pres_rules prims_presD[OF assms] pres_tab_opening[OF prims_pres_quiet[OF assms]])
  then show ?thesis
    unfolding pres_def init_def by (auto split: if_splits)
qed


lemma pres_verify_loop:
  "prims_pres P E \<Longrightarrow> pres P (verify_loop E n)"
proof (induction E n rule: verify_loop.induct)
  case (1 E n)
  note pp = "1.prems"
  show ?case
    by (subst verify_loop.simps)
       (intro pres_rules prims_presD[OF pp] "1.IH"[OF _ _ pp]; assumption)
qed

lemma pres_scroll_times:
  assumes "prims_pres P E" shows "pres P (scroll_times E d px ms n)"
  by (induction n) (auto intro!: pres_rules prims_presD[OF assms])

lemma pres_verify_before_extraction:
  "prims_pres P E \<Longrightarrow> pres P (verify_before_extraction E)"
  unfolding verify_before_extraction_def
  by (intro pres_rules prims_presD)

lemma pres_load_results: "prims_pres P E \<Longrightarrow> pres P (load_results E q m)"
  unfolding load_results_def
  by (intro pres_rules prims_presD pres_verify_loop pres_scroll_times
        pres_verify_before_extraction)

lemma pres_extract_step: "prims_pres P E \<Longrightarrow> pres P (extract_step E m s)"
  unfolding extract_step_def
  by (intro pres_rules prims_presD)

lemma pres_aggressive_scroll: "prims_pres P E \<Longrightarrow> pres P (aggressive_scroll E s)"
  unfolding aggressive_scroll_def
  by (intro pres_rules prims_presD)

lemma pres_extraction_loop:
  "prims_pres P E \<Longrightarrow> pres P (extraction_loop E m n s)"
proof (induction E m n s rule: extraction_loop.induct)
  case (1 E m n s)
  note pp = "1.prems"
  show ?case
    by (subst extraction_loop.simps)
       (intro pres_rules prims_presD[OF pp] pres_extract_step[OF pp]
          pres_aggressive_scroll[OF pp] "1.IH"[OF _ _ pp]; assumption)
qed

lemma pres_rescan_loop:
  "prims_pres P E \<Longrightarrow> pres P (rescan_loop E m n s)"
proof (induction E m n s rule: rescan_loop.induct)
  case (1 E m n s)
  note pp = "1.prems"
  show ?case
    by (subst rescan_loop.simps)
       (intro pres_rules prims_presD[OF pp] "1.IH"[OF _ _ pp]; assumption)
qed

lemma pres_rescan: "prims_pres P E \<Longrightarrow> pres P (rescan E m n s)"
  unfolding rescan_def
  by (intro pres_rules prims_presD pres_rescan_loop)

lemma pres_to_tweets:
  assumes "prims_pres P E" shows "pres P (to_tweets E i cs)"
  by (induction cs arbitrary: i) (auto intro!: pres_rules prims_presD[OF assms])

lemma pres_fallback_tweets:
  assumes "quiet_pres P E" shows "pres P (fallback_tweets E i els)"
  by (induction els arbitrary: i) (auto intro!: pres_rules quiet_presD[OF assms])

lemma pres_fallback_quiet: "quiet_pres P E \<Longrightarrow> pres P (extractTweetsFallback E m)"
  unfolding extractTweetsFallback_def
  by (intro pres_rules quiet_presD pres_fallback_tweets)

lemma pres_extractTweetsFallback: "prims_pres P E \<Longrightarrow> pres P (extractTweetsFallback E m)"
  by (rule pres_fallback_quiet[OF prims_pres_quiet])

lemma pres_finish: "prims_pres P E \<Longrightarrow> pres P (finish E m s)"
  unfolding finish_def
  by (intro pres_rules prims_presD pres_to_tweets pres_extractTweetsFallback)

lemma pres_search_body: "prims_pres P E \<Longrightarrow> pres P (search_body E q m)"
  unfolding search_body_def
  by (intro pres_rules pres_load_results pres_extraction_loop pres_rescan pres_finish)

lemma pres_init_if_needed:
  assumes "prims_pres P E"
  shows "pres P (\<lambda>w. if \<not> initialized w then init E w else (Inr (), w))"
  using pres_init[OF assms] unfolding pres_def by (auto split: if_splits)

lemma pres_searchTwitter: 
  assumes "prims_pres P E" shows "pres P (searchTwitter E q m)"
  unfolding searchTwitter_def
  by (intro pres_rules pres_init_if_needed[OF assms] pres_search_body[OF assms]
        prims_presD[OF assms] pres_extractTweetsFallback[OF assms])

lemma pres_news_loop:
  assumes "prims_pres P E" shows "pres P (news_loop E toCheck tweets)"
  by (induction tweets) (auto intro!: pres_rules prims_presD[OF assms])

lemma pres_checkBreakingNews:
  assumes "prims_pres P E" shows "pres P (checkBreakingNews E symbols)"
  unfolding checkBreakingNews_def
  by (intro pres_rules pres_searchTwitter[OF assms] pres_news_loop[OF assms])


section \<open>Runs, case by case\<close>

subsection \<open>Taking a run apart\<close>

lemma io_bind_cases:
  assumes "io_bind m f w = (r, w')"
  obtains (thrown) e where "m w = (Inl e, w')" "r = Inl e"
    | (went_on) x w1 where "m w = (Inr x, w1)" "f x w1 = (r, w')"
  using assms by (auto simp: io_bind_def split: prod.splits sum.splits)

lemma io_seq_cases:
  assumes "io_seq m k w = (r, w')"
  obtains (thrown) e where "m w = (Inl e, w')" "r = Inl e"
    | (went_on) x w1 where "m w = (Inr x, w1)" "k w1 = (r, w')"
  using assms unfolding io_seq_def by (rule io_bind_cases)

lemma io_catch_cases:
  assumes "io_catch m h w = (r, w')"
  obtains (returned) x where "m w = (Inr x, w')" "r = Inr x"
    | (caught) e w1 where "m w = (Inl e, w1)" "h e w1 = (r, w')"
  using assms by (auto simp: io_catch_def split: prod.splits sum.splits)

subsection \<open>What cannot throw\<close>

lemma no_throw_return: "no_throw (io_return x)"
  by (simp add: no_throw_def io_return_def)

lemma no_throw_seq: "no_throw m \<Longrightarrow> no_throw k \<Longrightarrow> no_throw (io_seq m k)"
  unfolding no_throw_def io_seq_def io_bind_def
proof
  fix w assume m: "\<forall>w. \<exists>x w'. m w = (Inr x, w')" and k: "\<forall>w. \<exists>x w'. k w = (Inr x, w')"
  from m obtain x w1 where "m w = (Inr x, w1)" by blast
  moreover from k obtain y w2 where "k w1 = (Inr y, w2)" by blast
  ultimately show "\<exists>x w'. (case m w of (Inl e, w') \<Rightarrow> (Inl e, w') | (Inr x, w') \<Rightarrow> k w') = (Inr x, w')"
    by simp
qed

lemma no_throw_catch: "(\<And>e. no_throw (h e)) \<Longrightarrow> no_throw (io_catch m h)"
  unfolding no_throw_def io_catch_def
proof
  fix w assume h: "\<And>e. \<forall>w. \<exists>x w'. h e w = (Inr x, w')"
  obtain r w1 where m: "m w = (r, w1)" by (cases "m w")
  show "\<exists>x w'. (case m w of (Inl e, w') \<Rightarrow> h e w' | (Inr x, w') \<Rightarrow> (Inr x, w')) = (Inr x, w')"
  proof (cases r)
    case (Inl e)
    from h[of e] obtain y w2 where "h e w1 = (Inr y, w2)" by blast
    with m Inl show ?thesis by simp
  next
    case (Inr x)
    with m show ?thesis by simp
  qed
qed

lemma search_handler_no_throw:
  "no_throw (io_catch (search_body E q m)
          (\<lambda>err. io_seq (io_catch cleanupScreenshots (\<lambda>e. io_return ()))
                  (io_catch (extractTweetsFallback E m)
                     (\<lambda>fallbackError. io_return []))))"
  by (intro no_throw_catch no_throw_seq no_throw_return)

lemma quiet_pres_paths: "quiet_pres (\<lambda>v. screenshotPaths v = ps) E"
  unfolding quiet_pres_def pres_def
  by (simp add: isConnected_def listTabs_def switchTab_def getCurrentUrl_def
        browser_open_def setViewportHeight_def browser_scroll_def browser_snapshot_def
        checkAuthentication_def verifySearchResults_def extractTweetsFromScreenshot_def
        date_now_def delay_def random_delay_def log_def)

lemma open_throws: "browser_open E u w = (Inl e, w') \<Longrightarrow> e = CommandFailed"
  by (auto simp: browser_open_def split: if_splits)

lemma delay_returns: "delay ms w = (r, w') \<Longrightarrow> r = Inr ()"
  by (auto simp: delay_def)

lemma tab_opening_throws:
  assumes "io_catch (find_twitter_tab E) (\<lambda>err. io_seq (browser_open E Home) (delay 5000)) w
     = (Inl e, w')"
  shows "e = CommandFailed"
  using assms
proof (cases rule: io_catch_cases)
  case (returned x)
  then show ?thesis by simp
next
  case (caught e1 w1)
  from caught(2) show ?thesis
  proof (cases rule: io_seq_cases)
    case (thrown e2)
    with open_throws[of E Home w1 e2 w'] show ?thesis by simp
  next
    case (went_on x w2)
    with delay_returns[of 5000 w2 "Inl e" w'] show ?thesis by simp
  qed
qed

lemma screenshot_throws:
  "take_screenshot E w = (Inl e, w') \<Longrightarrow>
   e = ScreenshotFailed \<and> screenshotPaths w' = screenshotPaths w"
  by (auto simp: take_screenshot_def log_def split: shot.splits if_splits)

lemma auth_then_initialized_returns:
  "io_seq checkAuthentication set_initialized w = (r, w') \<Longrightarrow> r = Inr ()"
  by (auto simp: io_seq_def io_bind_def checkAuthentication_def set_initialized_def)

lemma init_throws:
  assumes "init E w = (Inl e, w')"
  shows "\<not> initialized w \<and> screenshotPaths w' = screenshotPaths w \<and>
         (if \<not> chrome_connected E then e = ChromeNotRunning
          else e = CommandFailed \<or> e = ScreenshotFailed)"
proof -
  from assms have ni: "\<not> initialized w" by (auto simp: init_def split: if_splits)
  let ?tabs = "io_catch (find_twitter_tab E) (\<lambda>err. io_seq (browser_open E Home) (delay 5000))"
  let ?rest = "io_seq ?tabs (io_seq (take_screenshot E) (io_seq checkAuthentication set_initialized))"
  from assms ni have run: "io_bind (isConnected E) (\<lambda>connected.
         if \<not> connected then io_throw ChromeNotRunning else ?rest) w = (Inl e, w')"
    by (simp add: init_def)
  have keep: "pres (\<lambda>v. screenshotPaths v = screenshotPaths w) ?tabs"
    by (rule pres_tab_opening) (rule quiet_pres_paths)
  have start: "screenshotPaths (log IsConnected w) = screenshotPaths w"
    by (simp add: log_def)
  show ?thesis
  proof (cases "chrome_connected E")
    case False
    with run have "e = ChromeNotRunning" "w' = log IsConnected w"
      by (auto simp: io_bind_def isConnected_def io_throw_def)
    with ni False start show ?thesis by simp
  next
    case True
    with run have r2: "?rest (log IsConnected w) = (Inl e, w')"
      by (simp add: io_bind_def isConnected_def)
    from r2 show ?thesis
    proof (cases rule: io_seq_cases)
      case (thrown e')
      then have e: "e' = e" by simp
      from thrown(1) have "e' = CommandFailed" by (rule tab_opening_throws)
      moreover from keep thrown(1) start have "screenshotPaths w' = screenshotPaths w"
        unfolding pres_def by blast
      ultimately show ?thesis using ni True e by simp
    next
      case (went_on x w1)
      from keep went_on(1) start have p1: "screenshotPaths w1 = screenshotPaths w"
        unfolding pres_def by blast
      from went_on(2) show ?thesis
      proof (cases rule: io_seq_cases)
        case (thrown e2)
        with screenshot_throws[of E w1 e2 w'] p1 ni True show ?thesis by simp
      next
        case (went_on y w2)
        with auth_then_initialized_returns[of w2 "Inl e" w'] show ?thesis by simp
      qed
    qed
  qed
qed


lemma extract_step_cases:
  "extract_step E m s w = (r, w') \<Longrightarrow>
   (\<exists>ex. r = Inr (record_extraction m ex s)) \<or>
   r = Inr (s\<lparr>consecutiveEmptyScreenshots := Suc (consecutiveEmptyScreenshots s),
               stuckCount := Suc (stuckCount s)\<rparr>)"
  by (auto simp: extract_step_def io_catch_def io_seq_def io_bind_def io_return_def
        take_screenshot_def extractTweetsFromScreenshot_def
      split: shot.splits if_splits prod.splits sum.splits)

lemma catch_cleanup: "io_catch cleanupScreenshots h = cleanupScreenshots"
  by (simp add: io_catch_def cleanupScreenshots_def fun_eq_iff)


section \<open>Where a run ends\<close>

lemma ensures_bind: "(\<And>x. ensures Q (f x)) \<Longrightarrow> ensures Q (io_bind m f)"
  unfolding ensures_def
proof (intro allI impI)
  fix w y w' assume f: "\<And>x. \<forall>w y w'. f x w = (Inr y, w') \<longrightarrow> Q y w'"
    and run: "io_bind m f w = (Inr y, w')"
  from run show "Q y w'"
  proof (cases rule: io_bind_cases)
    case (thrown e) then show ?thesis by simp
  next
    case (went_on x w1) with f[of x] show ?thesis by blast
  qed
qed

lemma ensures_seq: "ensures Q k \<Longrightarrow> ensures Q (io_seq m k)"
  unfolding io_seq_def by (rule ensures_bind)

lemma ensures_catch:
  assumes "ensures Q m" and "\<And>e. ensures Q (h e)"
  shows "ensures Q (io_catch m h)"
  unfolding ensures_def
proof (intro allI impI)
  fix w y w' assume run: "io_catch m h w = (Inr y, w')"
  from run show "Q y w'"
  proof (cases rule: io_catch_cases)
    case (returned x) with assms(1) show ?thesis unfolding ensures_def by blast
  next
    case (caught e w1) with assms(2)[of e] show ?thesis unfolding ensures_def by blast
  qed
qed

lemma ensures_if:
  "(c \<Longrightarrow> ensures Q a) \<Longrightarrow> (\<not> c \<Longrightarrow> ensures Q b) \<Longrightarrow> ensures Q (if c then a else b)"
  by simp

lemma ensures_case_option:
  "ensures Q a \<Longrightarrow> (\<And>y. ensures Q (b y)) \<Longrightarrow>
   ensures Q (case x of None \<Rightarrow> a | Some y \<Rightarrow> b y)"
  by (cases x) simp_all

lemma ensures_case_list:
  "ensures Q a \<Longrightarrow> (\<And>y ys. ensures Q (b y ys)) \<Longrightarrow>
   ensures Q (case x of [] \<Rightarrow> a | y # ys \<Rightarrow> b y ys)"
  by (cases x) simp_all

lemma ensures_case_extraction:
  "ensures Q a \<Longrightarrow> (\<And>y. ensures Q (b y)) \<Longrightarrow>
   ensures Q (case x of ExtractionFailed \<Rightarrow> a | Extracted y \<Rightarrow> b y)"
  by (cases x) simp_all


lemmas ensures_rules = ensures_bind ensures_seq ensures_catch ensures_if
  ensures_case_option ensures_case_list ensures_case_extraction


section \<open>The session and the result of a harvest\<close>

subsection \<open>The session invariant\<close>

lemma add_tweets_inv:
  "length items < m \<Longrightarrow>
   distinct (map (\<lambda>t. dedup_key (c_text t)) items) \<Longrightarrow>
   seenKeys = set (map (\<lambda>t. dedup_key (c_text t)) items) \<Longrightarrow>
   length (snd (add_tweets m ts (seenKeys, items))) \<le> m \<and>
   distinct (map (\<lambda>t. dedup_key (c_text t)) (snd (add_tweets m ts (seenKeys, items)))) \<and>
   fst (add_tweets m ts (seenKeys, items)) =
     set (map (\<lambda>t. dedup_key (c_text t)) (snd (add_tweets m ts (seenKeys, items))))"
proof (induction ts arbitrary: seenKeys items)
  case Nil
  then show ?case by simp
next
  case (Cons t ts)
  let ?k = "dedup_key (c_text t)"
  show ?case
  proof (cases "?k \<noteq> [] \<and> length ?k > 10 \<and> ?k \<notin> seenKeys")
    case False
    then have "add_tweets m (t # ts) (seenKeys, items) = add_tweets m ts (seenKeys, items)"
      by (auto simp: Let_def)
    with Cons.IH[OF Cons.prems] show ?thesis by simp
  next
    case True
    show ?thesis
    proof (cases "m \<le> length (items @ [t])")
      case full: True
      with True have "add_tweets m (t # ts) (seenKeys, items) =
          (insert ?k seenKeys, items @ [t])"
        by (auto simp: Let_def)
      with True Cons.prems show ?thesis by auto
    next
      case False
      with True have eq: "add_tweets m (t # ts) (seenKeys, items) =
          add_tweets m ts (insert ?k seenKeys, items @ [t])"
        by (auto simp: Let_def)
      have "length (items @ [t]) < m" using False by simp
      moreover have "distinct (map (\<lambda>t. dedup_key (c_text t)) (items @ [t]))"
        using True Cons.prems by auto
      moreover have "insert ?k seenKeys = set (map (\<lambda>t. dedup_key (c_text t)) (items @ [t]))"
        using Cons.prems by auto
      ultimately show ?thesis unfolding eq by (rule Cons.IH)
    qed
  qed
qed

lemma merge_inv:
  assumes "session_inv m s" and "length (allTweets s) < m"
  shows "session_inv m
     (s\<lparr>seen := fst (add_tweets m ts (seen s, allTweets s)),
        allTweets := snd (add_tweets m ts (seen s, allTweets s))\<rparr>)"
  using assms add_tweets_inv[of "allTweets s" m "seen s" ts]
  by (simp add: session_inv_def)

lemma session_inv_counters:
  "session_inv m (s\<lparr>consecutiveEmptyScreenshots := a\<rparr>) = session_inv m s"
  "session_inv m (s\<lparr>stuckCount := b\<rparr>) = session_inv m s"
  "session_inv m (s\<lparr>lastTweetCount := c\<rparr>) = session_inv m s"
  by (simp_all add: session_inv_def)

lemma record_extraction_inv:
  assumes "session_inv m s" and "length (allTweets s) < m"
  shows "session_inv m (record_extraction m ex s)"
proof (cases ex)
  case ExtractionFailed
  with assms(1) show ?thesis
    by (simp add: record_extraction_def no_tweets_found_def session_inv_counters)
next
  case (Extracted answer)
  show ?thesis
  proof (cases answer)
    case None
    with Extracted assms(1) show ?thesis
      by (simp add: record_extraction_def no_tweets_found_def session_inv_counters)
  next
    case (Some tweets)
    with Extracted assms(1) merge_inv[OF assms, of tweets] show ?thesis
      by (simp add: record_extraction_def no_tweets_found_def Let_def session_inv_counters)
  qed
qed

lemma record_retry_inv:
  assumes "session_inv m s" and "length (allTweets s) < m"
  shows "session_inv m (record_retry m ex s)"
  using assms(1) merge_inv[OF assms]
  by (auto simp: record_retry_def Let_def split: extraction.splits option.splits)

lemma extract_step_inv:
  assumes "session_inv m s" and "length (allTweets s) < m"
    and "extract_step E m s w = (Inr s1, w1)"
  shows "session_inv m s1"
proof -
  from extract_step_cases[OF assms(3)] show ?thesis
  proof (elim disjE exE)
    fix ex assume "Inr s1 = Inr (record_extraction m ex s)"
    with record_extraction_inv[OF assms(1,2), of ex] show ?thesis by simp
  next
    assume "Inr s1 = Inr (s\<lparr>consecutiveEmptyScreenshots := Suc (consecutiveEmptyScreenshots s),
               stuckCount := Suc (stuckCount s)\<rparr>)"
    with assms(1) show ?thesis by (auto simp: session_inv_counters)
  qed
qed

lemma aggressive_scroll_inv:
  assumes "session_inv m s1" and "aggressive_scroll E s1 w1 = (Inr s2, w2)"
  shows "session_inv m s2"
proof (cases "stuckCount s1 \<ge> 3 \<or> consecutiveEmptyScreenshots s1 \<ge> 5")
  case False
  with assms show ?thesis by (simp add: aggressive_scroll_def io_return_def)
next
  case True
  with assms(2) have "io_seq (browser_scroll E Down 5000)
          (io_seq (delay 4000)
          (io_return (s1\<lparr>consecutiveEmptyScreenshots := 0, stuckCount := 0\<rparr>))) w1 = (Inr s2, w2)"
    by (simp add: aggressive_scroll_def)
  then have "s2 = s1\<lparr>consecutiveEmptyScreenshots := 0, stuckCount := 0\<rparr>"
    by (auto simp: io_seq_def io_bind_def io_return_def delay_def
        split: prod.splits sum.splits)
  with assms(1) show ?thesis by (simp add: session_inv_counters)
qed

lemma extraction_loop_inv:
  "session_inv m s \<Longrightarrow> extraction_loop E m n s w = (Inr (n', s'), w') \<Longrightarrow> session_inv m s'"
proof (induction E m n s arbitrary: w rule: extraction_loop.induct)
  case (1 E m n s)
  show ?case
  proof (cases "length (allTweets s) < m \<and> n < 50")
    case False
    with "1.prems"(2) have "s' = s"
      by (subst (asm) extraction_loop.simps) (simp add: io_return_def)
    with "1.prems"(1) show ?thesis by simp
  next
    case True
    with "1.prems"(2) have run:
      "io_bind (extract_step E m s) (\<lambda>s1.
           io_bind (aggressive_scroll E s1) (\<lambda>s2.
             if length (allTweets s2) < m
             then io_seq (browser_scroll E Down 3000)
                 (io_seq (delay 4000)
                 (extraction_loop E m (Suc n) s2))
             else io_return (n, s2))) w = (Inr (n', s'), w')"
      by (subst (asm) extraction_loop.simps) simp
    from run show ?thesis
    proof (cases rule: io_bind_cases)
      case (thrown e) then show ?thesis by simp
    next
      case (went_on s1 w1)
      from extract_step_inv[OF "1.prems"(1) _ went_on(1)] True
      have i1: "session_inv m s1" by simp
      from went_on(2) show ?thesis
      proof (cases rule: io_bind_cases)
        case (thrown e) then show ?thesis by simp
      next
        case (went_on s2 w2)
        from aggressive_scroll_inv[OF i1 went_on(1)] have i2: "session_inv m s2" .
        show ?thesis
        proof (cases "length (allTweets s2) < m")
          case False
          with went_on(2) have "s' = s2" by (simp add: io_return_def)
          with i2 show ?thesis by simp
        next
          case more: True
          with went_on(2) have "io_seq (browser_scroll E Down 3000)
                 (io_seq (delay 4000)
                 (extraction_loop E m (Suc n) s2)) w2 = (Inr (n', s'), w')" by simp
          then obtain w3 where "extraction_loop E m (Suc n) s2 w3 = (Inr (n', s'), w')"
            by (auto elim!: io_seq_cases)
          from "1.IH"[OF True more i2 this] show ?thesis .
        qed
      qed
    qed
  qed
qed

lemma rescan_loop_inv:
  "session_inv m s \<Longrightarrow> rescan_loop E m n s w = (Inr s', w') \<Longrightarrow> session_inv m s'"
proof (induction E m n s arbitrary: w rule: rescan_loop.induct)
  case (1 E m n s)
  show ?case
  proof (cases "n < 3 \<and> length (allTweets s) < m")
    case False
    with "1.prems"(2) have "s' = s"
      by (subst (asm) rescan_loop.simps) (simp add: io_return_def)
    with "1.prems"(1) show ?thesis by simp
  next
    case True
    with "1.prems"(2) have run:
      "io_seq (take_screenshot E)
          (io_bind (extractTweetsFromScreenshot E (m * 2)) (\<lambda>retryExtraction.
             let s1 = record_retry m retryExtraction s
             in io_seq (if length (allTweets s1) < m
                        then io_seq (browser_scroll E Down 2000) (delay 2500)
                        else io_return ())
                       (rescan_loop E m (Suc n) s1))) w = (Inr s', w')"
      by (subst (asm) rescan_loop.simps) simp
    then obtain ex w3 where
      r3: "rescan_loop E m (Suc n) (record_retry m ex s) w3 = (Inr s', w')"
      by (auto elim!: io_seq_cases io_bind_cases simp: Let_def)
    from record_retry_inv[OF "1.prems"(1), of ex] True
    have "session_inv m (record_retry m ex s)" by simp
    from "1.IH"[OF True refl this r3] show ?thesis .
  qed
qed

lemma rescan_inv:
  assumes "session_inv m s" and "rescan E m n s w = (Inr s', w')"
  shows "session_inv m s'"
proof (cases "length (allTweets s) < m \<and> n < 50")
  case False
  with assms show ?thesis by (simp add: rescan_def io_return_def)
next
  case True
  with assms(2) obtain w3 where "rescan_loop E m 0 s w3 = (Inr s', w')"
    by (auto simp: rescan_def elim!: io_seq_cases)
  from rescan_loop_inv[OF assms(1) this] show ?thesis .
qed

lemma new_session_inv: "session_inv m new_session"
  by (simp add: session_inv_def new_session_def)

subsection \<open>What the log says\<close>

lemma quiet_pres_grown: "quiet_pres (grown t) E"
  unfolding quiet_pres_def pres_def grown_def
  by (auto simp: isConnected_def listTabs_def switchTab_def getCurrentUrl_def
        browser_open_def setViewportHeight_def browser_scroll_def browser_snapshot_def
        checkAuthentication_def verifySearchResults_def extractTweetsFromScreenshot_def
        date_now_def delay_def random_delay_def log_def)

lemma prims_pres_grown: "prims_pres (grown t) E"
  unfolding prims_pres_def pres_def
  using quiet_pres_grown[of t E]
  by (auto simp: grown_def take_screenshot_def cleanupScreenshots_def set_initialized_def
        log_def split: shot.splits if_splits)

lemma quiet_pres_logged: "quiet_pres (logged t ev) E"
  unfolding quiet_pres_def pres_def logged_def
  by (auto simp: isConnected_def listTabs_def switchTab_def getCurrentUrl_def
        browser_open_def setViewportHeight_def browser_scroll_def browser_snapshot_def
        checkAuthentication_def verifySearchResults_def extractTweetsFromScreenshot_def
        date_now_def delay_def random_delay_def log_def)

lemma prims_pres_logged: "prims_pres (logged t ev) E"
  unfolding prims_pres_def pres_def
  using quiet_pres_logged[of t ev E]
  by (auto simp: logged_def take_screenshot_def cleanupScreenshots_def set_initialized_def
        log_def split: shot.splits if_splits)

lemma grown_refl: "grown (trace w) w"
  by (simp add: grown_def)

lemma extract_logs:
  "extractTweetsFromScreenshot E k w = (r, w') \<Longrightarrow> grown t w \<Longrightarrow>
   logged t (ExtractTweets k) w'"
  by (auto simp: extractTweetsFromScreenshot_def log_def grown_def logged_def)

lemma snapshot_logs:
  "browser_snapshot E w = (r, w') \<Longrightarrow> grown t w \<Longrightarrow> logged t Snapshot w'"
  by (auto simp: browser_snapshot_def log_def grown_def logged_def)

lemma open_logs:
  "browser_open E u w = (r, w') \<Longrightarrow> grown t w \<Longrightarrow> logged t (Open u) w'"
  by (auto simp: browser_open_def log_def grown_def logged_def)

subsection \<open>The values returned\<close>

lemma to_tweets_texts:
  "to_tweets E i cs w = (Inr tws, w') \<Longrightarrow> map tw_text tws = map c_text cs"
proof (induction cs arbitrary: i w tws w')
  case Nil
  then show ?case by (simp add: io_return_def)
next
  case (Cons c cs)
  from Cons.prems obtain w1 rest t where
    "to_tweets E (Suc i) cs w1 = (Inr rest, w')" "tws = t # rest" "tw_text t = c_text c"
    by (auto simp: io_return_def elim!: io_bind_cases split: if_splits)
  with Cons.IH[of "Suc i" w1 rest w'] show ?case by simp
qed

lemma fallback_tweets_length:
  "fallback_tweets E i els w = (Inr tws, w') \<Longrightarrow> length tws = length els"
proof (induction els arbitrary: i w tws w')
  case Nil
  then show ?case by (simp add: io_return_def)
next
  case (Cons c cs)
  from Cons.prems obtain w1 rest t where
    "fallback_tweets E (Suc i) cs w1 = (Inr rest, w')" "tws = t # rest"
    by (auto simp: io_return_def elim!: io_bind_cases)
  with Cons.IH[of "Suc i" w1 rest w'] show ?case by simp
qed

lemma fallback_result:
  assumes "extractTweetsFallback E m w = (r, w')" and "grown t w"
  shows "(\<exists>tws. r = Inr tws \<and> length tws \<le> m) \<and> logged t Snapshot w'"
proof -
  let ?body = "io_bind (browser_snapshot E) (\<lambda>elements.
          let tweetElements = filter is_tweet_element elements
          in fallback_tweets E 0 (take (min (length tweetElements) m) tweetElements))"
  from assms(1) have run: "io_catch ?body (\<lambda>err. io_return []) w = (r, w')"
    by (simp add: extractTweetsFallback_def)
  have body_logs: "logged t Snapshot v'" if "?body w = (x, v')" for x v'
    using that
  proof (cases rule: io_bind_cases)
    case (thrown e)
    from snapshot_logs[OF thrown(1) assms(2)] show ?thesis .
  next
    case (went_on els w1)
    from snapshot_logs[OF went_on(1) assms(2)] have "logged t Snapshot w1" .
    moreover have "pres (logged t Snapshot)
        (let tweetElements = filter is_tweet_element els
          in fallback_tweets E 0 (take (min (length tweetElements) m) tweetElements))"
      by (intro pres_rules pres_fallback_tweets quiet_pres_logged)
    ultimately show ?thesis using went_on(2) unfolding pres_def by blast
  qed
  from run show ?thesis
  proof (cases rule: io_catch_cases)
    case (returned tws)
    from returned(1) have "length tws \<le> m"
      by (auto simp: Let_def elim!: io_bind_cases dest!: fallback_tweets_length)
    with returned body_logs[OF returned(1)] show ?thesis by simp
  next
    case (caught e w1)
    from caught(2) have "r = Inr []" "w' = w1" by (simp_all add: io_return_def)
    with body_logs[OF caught(1)] show ?thesis by simp
  qed
qed

lemma cleanup_tail_returns:
  "io_seq cleanupScreenshots (io_seq random_delay (io_return x)) w = (Inr y, w') \<Longrightarrow> y = x"
  by (auto simp: io_seq_def io_bind_def io_return_def cleanupScreenshots_def random_delay_def)

lemma finish_result:
  assumes "finish E m s w = (Inr tws, w')" and "session_inv m s" and "grown t w"
  shows "length tws \<le> m \<and>
         (distinct (map (\<lambda>x. dedup_key (tw_text x)) tws) \<or> logged t (ExtractTweets m) w')"
proof -
  let ?u = "take m (allTweets s)"
  let ?tail = "\<lambda>tweets. io_seq cleanupScreenshots (io_seq random_delay (io_return tweets))"
  from assms(1) obtain w1 where c1: "cleanupScreenshots w = (Inr (), w1)"
    and rest: "(if length ?u = 0
         then io_seq (take_screenshot E)
             (io_bind (extractTweetsFromScreenshot E m) (\<lambda>finalExtraction.
                case finalExtraction of
                  Extracted (Some (t # ts)) \<Rightarrow>
                    io_bind (to_tweets E 0 (take m (t # ts))) ?tail
                | _ \<Rightarrow>
                    io_bind (extractTweetsFallback E m) (\<lambda>fallbackTweets.
                    io_seq cleanupScreenshots
                      (if length fallbackTweets > 0 then io_return fallbackTweets
                       else io_return []))))
         else io_bind (to_tweets E 0 (take m ?u)) ?tail) w1 = (Inr tws, w')"
    unfolding finish_def Let_def by (auto elim!: io_seq_cases)
  from c1 assms(3) prims_presD(16)[OF prims_pres_grown[of t E]] have g1: "grown t w1"
    unfolding pres_def by blast
  show ?thesis
  proof (cases "length ?u = 0")
    case False
    from rest have run: "io_bind (to_tweets E 0 (take m ?u)) ?tail w1 = (Inr tws, w')"
      unfolding if_not_P[OF False] .
    from run obtain x w2 where x: "to_tweets E 0 (take m ?u) w1 = (Inr x, w2)"
      and tl: "?tail x w2 = (Inr tws, w')"
      by (auto elim!: io_bind_cases)
    from cleanup_tail_returns[OF tl] have "tws = x" .
    with to_tweets_texts[OF x] have texts: "map tw_text tws = map c_text ?u" by simp
    then have "length tws = length ?u" by (metis length_map)
    then have len: "length tws \<le> m" by simp
    have "map (\<lambda>x. dedup_key (tw_text x)) tws = map dedup_key (map tw_text tws)" by simp
    also have "\<dots> = map (\<lambda>c. dedup_key (c_text c)) ?u" using texts by simp
    finally have "map (\<lambda>x. dedup_key (tw_text x)) tws =
        take m (map (\<lambda>c. dedup_key (c_text c)) (allTweets s))"
      by (simp add: take_map)
    moreover from assms(2) have "distinct (map (\<lambda>c. dedup_key (c_text c)) (allTweets s))"
      by (simp add: session_inv_def)
    ultimately have "distinct (map (\<lambda>x. dedup_key (tw_text x)) tws)"
      by (simp add: distinct_take)
    with len show ?thesis by simp
  next
    case True
    from rest have "io_seq (take_screenshot E)
             (io_bind (extractTweetsFromScreenshot E m) (\<lambda>finalExtraction.
                case finalExtraction of
                  Extracted (Some (t # ts)) \<Rightarrow>
                    io_bind (to_tweets E 0 (take m (t # ts))) ?tail
                | _ \<Rightarrow>
                    io_bind (extractTweetsFallback E m) (\<lambda>fallbackTweets.
                    io_seq cleanupScreenshots
                      (if length fallbackTweets > 0 then io_return fallbackTweets
                       else io_return [])))) w1 = (Inr tws, w')"
      unfolding if_P[OF True] .
    then obtain w2 fe w3 where sh: "take_screenshot E w1 = (Inr (), w2)"
      and ex: "extractTweetsFromScreenshot E m w2 = (Inr fe, w3)"
      and k: "(case fe of
                  Extracted (Some (t # ts)) \<Rightarrow>
                    io_bind (to_tweets E 0 (take m (t # ts))) ?tail
                | _ \<Rightarrow>
                    io_bind (extractTweetsFallback E m) (\<lambda>fallbackTweets.
                    io_seq cleanupScreenshots
                      (if length fallbackTweets > 0 then io_return fallbackTweets
                       else io_return []))) w3 = (Inr tws, w')"
      by (auto elim!: io_seq_cases io_bind_cases)
    from sh g1 prims_presD(15)[OF prims_pres_grown[of t E]] have g2: "grown t w2"
      unfolding pres_def by blast
    from extract_logs[OF ex g2] have l3: "logged t (ExtractTweets m) w3" .
    have "pres (logged t (ExtractTweets m)) (case fe of
                  Extracted (Some (t # ts)) \<Rightarrow>
                    io_bind (to_tweets E 0 (take m (t # ts))) ?tail
                | _ \<Rightarrow>
                    io_bind (extractTweetsFallback E m) (\<lambda>fallbackTweets.
                    io_seq cleanupScreenshots
                      (if length fallbackTweets > 0 then io_return fallbackTweets
                       else io_return [])))"
      by (intro pres_rules prims_presD[OF prims_pres_logged] pres_to_tweets[OF prims_pres_logged]
            pres_extractTweetsFallback[OF prims_pres_logged])
    with l3 k have l: "logged t (ExtractTweets m) w'" unfolding pres_def by blast
    have "length tws \<le> m"
    proof (cases "\<exists>t ts. fe = Extracted (Some (t # ts))")
      case True
      then obtain t0 ts0 where fe: "fe = Extracted (Some (t0 # ts0))" by blast
      with k obtain x w4 where x: "to_tweets E 0 (take m (t0 # ts0)) w3 = (Inr x, w4)"
        and tl: "?tail x w4 = (Inr tws, w')"
        by (auto elim!: io_bind_cases)
      from cleanup_tail_returns[OF tl] to_tweets_texts[OF x]
      have "map tw_text tws = map c_text (take m (t0 # ts0))" by simp
      then have "length tws = length (take m (t0 # ts0))" by (metis length_map)
      then show ?thesis by simp
    next
      case False
      with k have "io_bind (extractTweetsFallback E m) (\<lambda>fallbackTweets.
                    io_seq cleanupScreenshots
                      (if length fallbackTweets > 0 then io_return fallbackTweets
                       else io_return [])) w3 = (Inr tws, w')"
        by (auto split: extraction.splits option.splits list.splits)
      then obtain fb w4 where fb: "extractTweetsFallback E m w3 = (Inr fb, w4)"
        and tl: "io_seq cleanupScreenshots
                      (if length fb > 0 then io_return fb else io_return []) w4 = (Inr tws, w')"
        by (auto elim!: io_bind_cases)
      from fallback_result[OF fb grown_refl] have "length fb \<le> m" by simp
      moreover from tl have "tws = fb \<or> tws = []"
        by (auto simp: io_return_def elim!: io_seq_cases split: if_splits)
      ultimately show ?thesis by auto
    qed
    with l show ?thesis by simp
  qed
qed

lemma first_step_logged:
  assumes first: "\<And>v r v'. m v = (r, v') \<Longrightarrow> grown t v \<Longrightarrow> logged t ev v'"
    and rest: "pres (logged t ev) k"
    and run: "io_seq m k w = (r, w')" and g: "grown t w"
  shows "logged t ev w'"
  using run
proof (cases rule: io_seq_cases)
  case (thrown e)
  from first[OF thrown(1) g] show ?thesis .
next
  case (went_on x w1)
  from first[OF went_on(1) g] have "logged t ev w1" .
  with rest went_on(2) show ?thesis unfolding pres_def by blast
qed

lemma load_results_logs_open:
  assumes "load_results E q m w = (r, w')" and "grown t w"
  shows "logged t (Open (SearchUrl q)) w'"
proof (rule first_step_logged[where m = "browser_open E (SearchUrl q)"])
  show "logged t (Open (SearchUrl q)) v'"
    if "browser_open E (SearchUrl q) v = (r, v')" "grown t v" for v r v'
    using that by (rule open_logs)
  show "io_seq (browser_open E (SearchUrl q))
    (io_seq (delay 5000)
    (io_seq (setViewportHeight (max 5000 (m * 300)))
    (io_seq (delay 2000)
    (io_seq (take_screenshot E)
    (io_seq (verify_loop E 0)
    (io_seq (scroll_times E Down 2500 3500 (max 5 ((m + 1) div 2)))
    (io_seq (scroll_times E Up 5000 800 10)
    (io_seq (delay 3000)
            (verify_before_extraction E))))))))) w = (r, w')"
    using assms(1) by (simp add: load_results_def)
  show "pres (logged t (Open (SearchUrl q)))
    (io_seq (delay 5000)
    (io_seq (setViewportHeight (max 5000 (m * 300)))
    (io_seq (delay 2000)
    (io_seq (take_screenshot E)
    (io_seq (verify_loop E 0)
    (io_seq (scroll_times E Down 2500 3500 (max 5 ((m + 1) div 2)))
    (io_seq (scroll_times E Up 5000 800 10)
    (io_seq (delay 3000)
            (verify_before_extraction E)))))))))"
    by (intro pres_rules prims_presD[OF prims_pres_logged] pres_verify_loop[OF prims_pres_logged]
          pres_scroll_times[OF prims_pres_logged]
          pres_verify_before_extraction[OF prims_pres_logged])
  show "grown t w" by fact
qed

lemma search_body_logs_open:
  assumes "search_body E q m w = (r, w')" and "grown t w"
  shows "logged t (Open (SearchUrl q)) w'"
proof (rule first_step_logged[where m = "load_results E q m"])
  show "logged t (Open (SearchUrl q)) v'"
    if "load_results E q m v = (r, v')" "grown t v" for v r v'
    using that by (rule load_results_logs_open)
  show "io_seq (load_results E q m)
    (io_bind (extraction_loop E m 0 new_session) (\<lambda>looped.
     io_bind (rescan E m (fst looped) (snd looped)) (\<lambda>s.
     finish E m s))) w = (r, w')"
    using assms(1) by (simp add: search_body_def)
  show "pres (logged t (Open (SearchUrl q)))
    (io_bind (extraction_loop E m 0 new_session) (\<lambda>looped.
     io_bind (rescan E m (fst looped) (snd looped)) (\<lambda>s.
     finish E m s)))"
    by (intro pres_rules pres_extraction_loop[OF prims_pres_logged]
          pres_rescan[OF prims_pres_logged] pres_finish[OF prims_pres_logged])
  show "grown t w" by fact
qed

lemma search_body_result:
  assumes "search_body E q m w = (Inr tws, w')" and "grown t w"
  shows "length tws \<le> m \<and>
         (distinct (map (\<lambda>x. dedup_key (tw_text x)) tws) \<or> logged t (ExtractTweets m) w')"
proof -
  from assms(1) obtain w2 looped w3 s w4 where
    l: "load_results E q m w = (Inr (), w2)"
    and x: "extraction_loop E m 0 new_session w2 = (Inr looped, w3)"
    and r: "rescan E m (fst looped) (snd looped) w3 = (Inr s, w4)"
    and f: "finish E m s w4 = (Inr tws, w')"
    unfolding search_body_def by (auto elim!: io_seq_cases io_bind_cases)
  from l assms(2) pres_load_results[OF prims_pres_grown, of t E q m] have "grown t w2"
    unfolding pres_def by blast
  with x pres_extraction_loop[OF prims_pres_grown, of t E m 0 new_session] have "grown t w3"
    unfolding pres_def by blast
  with r pres_rescan[OF prims_pres_grown, of t E m "fst looped" "snd looped"] have g4: "grown t w4"
    unfolding pres_def by blast
  from x have "extraction_loop E m 0 new_session w2 = (Inr (fst looped, snd looped), w3)"
    by simp
  from extraction_loop_inv[OF new_session_inv this] have "session_inv m (snd looped)" .
  from rescan_inv[OF this r] have "session_inv m s" .
  from finish_result[OF f this g4] show ?thesis .
qed

lemma searchTwitter_result:
  assumes "searchTwitter E q m w = (Inr tws, w')"
  shows "length tws \<le> m \<and> logged (trace w) (Open (SearchUrl q)) w' \<and>
         (distinct (map (\<lambda>x. dedup_key (tw_text x)) tws) \<or>
          logged (trace w) (ExtractTweets m) w' \<or> logged (trace w) Snapshot w')"
proof -
  let ?t = "trace w"
  let ?handler = "io_seq (io_catch cleanupScreenshots (\<lambda>e. io_return ()))
                  (io_catch (extractTweetsFallback E m) (\<lambda>fallbackError. io_return []))"
  from assms obtain w1 where
    a: "(if \<not> initialized w then init E w else (Inr (), w)) = (Inr (), w1)"
    and g: "io_catch (search_body E q m) (\<lambda>err. ?handler) w1 = (Inr tws, w')"
    unfolding searchTwitter_def by (auto elim!: io_seq_cases)
  from a pres_init_if_needed[OF prims_pres_grown, of ?t E] grown_refl[of w]
  have g1: "grown ?t w1" unfolding pres_def by blast
  from g show ?thesis
  proof (cases rule: io_catch_cases)
    case (returned x)
    then have b: "search_body E q m w1 = (Inr tws, w')" by simp
    from search_body_result[OF b g1] search_body_logs_open[OF b g1] show ?thesis by blast
  next
    case (caught e w2)
    from search_body_logs_open[OF caught(1) g1] have o2: "logged ?t (Open (SearchUrl q)) w2" .
    have "pres (logged ?t (Open (SearchUrl q))) ?handler"
      by (intro pres_rules prims_presD[OF prims_pres_logged]
            pres_extractTweetsFallback[OF prims_pres_logged])
    with o2 caught(2) have o: "logged ?t (Open (SearchUrl q)) w'" unfolding pres_def by blast
    from caught(1) g1 pres_search_body[OF prims_pres_grown, of ?t E q m] have g2: "grown ?t w2"
      unfolding pres_def by blast
    from caught(2) obtain w3 where c: "cleanupScreenshots w2 = (Inr (), w3)"
      and fb: "io_catch (extractTweetsFallback E m) (\<lambda>fallbackError. io_return []) w3
          = (Inr tws, w')"
      unfolding catch_cleanup by (auto elim!: io_seq_cases)
    from c g2 prims_presD(16)[OF prims_pres_grown[of ?t E]] have g3: "grown ?t w3"
      unfolding pres_def by blast
    from fb have "length tws \<le> m \<and> logged ?t Snapshot w'"
    proof (cases rule: io_catch_cases)
      case (returned x)
      with fallback_result[OF returned(1) g3] show ?thesis by simp
    next
      case (caught e' w4)
      from caught(2) have "tws = []" "w' = w4" by (simp_all add: io_return_def)
      with fallback_result[OF caught(1) g3] show ?thesis by simp
    qed
    with o show ?thesis by blast
  qed
qed

subsection \<open>The news loop\<close>

lemma classify_symbol_mentioned:
  "classify_tweet E toCheck now tweet = Some item \<Longrightarrow>
   symbol item \<in> set toCheck \<and> mentions (tw_text tweet) (symbol item)"
  by (auto simp: classify_tweet_def Let_def find_Some_iff split: if_splits option.splits)

lemma news_loop_step:
  assumes "news_loop E toCheck (t # ts) w = (Inr news, w')"
  obtains now w1 results where "news_loop E toCheck ts w1 = (Inr results, w')"
    and "news = (case classify_tweet E toCheck now t of None \<Rightarrow> results
                 | Some it \<Rightarrow> it # results)"
  using assms
  by (auto simp: io_bind_def io_return_def date_now_def split: prod.splits sum.splits)

lemma news_loop_items:
  "news_loop E toCheck tweets w = (Inr news, w') \<Longrightarrow> item \<in> set news \<Longrightarrow>
   \<exists>tweet now. tweet \<in> set tweets \<and> classify_tweet E toCheck now tweet = Some item"
proof (induction tweets arbitrary: w news w')
  case Nil
  then show ?case by (simp add: io_return_def)
next
  case (Cons t ts)
  from Cons.prems(1) obtain now w1 results where
    r: "news_loop E toCheck ts w1 = (Inr results, w')" and
    n: "news = (case classify_tweet E toCheck now t of None \<Rightarrow> results
                | Some it \<Rightarrow> it # results)"
    by (rule news_loop_step)
  show ?case
  proof (cases "item \<in> set results")
    case True
    from Cons.IH[OF r True] show ?thesis by auto
  next
    case False
    with n Cons.prems(2) have "classify_tweet E toCheck now t = Some item"
      by (auto split: option.splits)
    then show ?thesis by auto
  qed
qed

lemma news_loop_length:
  "news_loop E toCheck tweets w = (Inr news, w') \<Longrightarrow> length news \<le> length tweets"
proof (induction tweets arbitrary: w news w')
  case Nil
  then show ?case by (simp add: io_return_def)
next
  case (Cons t ts)
  from Cons.prems(1) obtain now w1 results where
    r: "news_loop E toCheck ts w1 = (Inr results, w')" and
    n: "news = (case classify_tweet E toCheck now t of None \<Rightarrow> results
                | Some it \<Rightarrow> it # results)"
    by (rule news_loop_step)
  from Cons.IH[OF r] n show ?case by (auto split: option.splits)
qed

lemma checkBreakingNews_run:
  assumes "checkBreakingNews E symbols w = (Inr news, w')" and "symbols \<noteq> []"
  obtains tweets w1 where
    "searchTwitter E (news_query (take 3 symbols)) 5 w = (Inr tweets, w1)"
    "news_loop E (take 3 symbols) tweets w1 = (Inr news, w')"
  using assms
  by (auto simp: checkBreakingNews_def Let_def io_bind_def split: prod.splits sum.splits)

lemma checkBreakingNews_items:
  assumes "checkBreakingNews E symbols w = (Inr news, w')" "item \<in> set news"
  shows "\<exists>tweet now. classify_tweet E (take 3 symbols) now tweet = Some item"
proof (cases "symbols = []")
  case True
  with assms show ?thesis by (simp add: checkBreakingNews_def io_return_def)
next
  case False
  from checkBreakingNews_run[OF assms(1) False] obtain tweets w1 where
    "news_loop E (take 3 symbols) tweets w1 = (Inr news, w')" by blast
  from news_loop_items[OF this assms(2)] show ?thesis by blast
qed


section \<open>Deduplication: first occurrence wins\<close>






section \<open>The stall counters of one iteration\<close>






section \<open>Aggressive recovery\<close>




section \<open>C7: the breaking-news window\<close>

subsection \<open>A harvest of dated posts\<close>







subsection \<open>What the news loop returns\<close>





subsection \<open>Two breaking-news checks of the dated harvest\<close>











section \<open>Symbols with lower-case letters\<close>

lemma upper_char_not_lower: "\<not> is_lower (upper_char c)"
proof (cases "map_of (zip lower_letters upper_letters) c")
  case None
  have len: "length lower_letters = length upper_letters"
    by (simp add: lower_letters_def upper_letters_def)
  from map_of_zip_is_None[OF len, of c] None have "c \<notin> set lower_letters"
    by simp
  moreover from None have "upper_char c = c"
    by (simp add: upper_char_def)
  ultimately show ?thesis by (simp add: is_lower_def)
next
  case (Some d)
  from map_of_SomeD[OF Some] have "(c, d) \<in> set (zip lower_letters upper_letters)" .
  then have d: "d \<in> set upper_letters"
    by (rule set_zip_rightD)
  have disj: "\<forall>u \<in> set upper_letters. u \<notin> set lower_letters"
    by (simp add: upper_letters_def lower_letters_def)
  from Some have "upper_char c = d"
    by (simp add: upper_char_def)
  with d disj show ?thesis by (simp add: is_lower_def)
qed

lemma lower_not_in_upper:
  assumes "is_lower c" shows "c \<notin> set (toUpperCase txt)"
  using assms upper_char_not_lower by (auto simp: toUpperCase_def)

lemma not_mentions_lower:
  assumes "c \<in> set s" "is_lower c"
  shows "\<not> mentions txt s"
proof
  assume "mentions txt s"
  then consider "sublist (''$'' @ s) (toUpperCase txt)"
    | "sublist ('' '' @ s @ '' '') (toUpperCase txt)"
    by (auto simp: mentions_def str_includes_def)
  then have "set s \<subseteq> set (toUpperCase txt)"
  proof cases
    case 1
    then have "set (''$'' @ s) \<subseteq> set (toUpperCase txt)" by (rule set_mono_sublist)
    then show ?thesis by simp
  next
    case 2
    then have "set ('' '' @ s @ '' '') \<subseteq> set (toUpperCase txt)" by (rule set_mono_sublist)
    then show ?thesis by simp
  qed
  with assms show False using lower_not_in_upper by blast
qed

text \<open>The breaking-news check of the five harvested posts for a lower-case symbol.\<close>

lemma news_env_lower:
  "checkBreakingNews news_env [''aapl''] ready_world =
     (Inr [], (harvest_world (news_query [''aapl'']))\<lparr>n_now := 15\<rparr>)"
  by (simp add: checkBreakingNews_def Let_def news_env_harvest io_bind_def)
     (simp add: five_tweets_def tweet_of_def harvest_world_def io_eval date_now_def
        news_eval str_eval env_eval)

text \<open>
  C10. A requested symbol with a lower-case letter is mentioned by no text, because the
  text is upper-cased before the test and the symbol is not; so no item that
  \<open>checkBreakingNews\<close> emits carries that symbol.
\<close>

theorem lowercase_symbol_never_emitted:
  assumes "\<exists>c \<in> set s. is_lower c"
    and "checkBreakingNews E symbols w = (Inr news, w')"
  shows "(\<forall>txt. \<not> mentions txt s) \<and> (\<forall>item \<in> set news. symbol item \<noteq> s)"
proof
  from assms(1) obtain c where c: "c \<in> set s" "is_lower c" by blast
  show nm: "\<forall>txt. \<not> mentions txt s" using not_mentions_lower[OF c] by blast
  show "\<forall>item \<in> set news. symbol item \<noteq> s"
  proof
    fix item assume "item \<in> set news"
    from checkBreakingNews_items[OF assms(2) this] obtain tweet now where
      "classify_tweet E (take 3 symbols) now tweet = Some item" by blast
    from classify_symbol_mentioned[OF this] nm show "symbol item \<noteq> s" by blast
  qed
qed

theorem lowercase_symbol_never_emitted_witness:
  "is_lower (CHR ''a'') \<and> CHR ''a'' \<in> set ''aapl'' \<and>
   fst (checkBreakingNews news_env [''aapl''] ready_world) = Inr [] \<and>
   \<not> mentions ''$AAPL beats est'' ''aapl'' \<and> mentions ''$AAPL beats est'' ''AAPL''"
proof -
  have l: "is_lower (CHR ''a'')" "CHR ''a'' \<in> set ''aapl''"
    by (simp_all add: is_lower_def lower_letters_def)
  then have h: "\<exists>c \<in> set ''aapl''. is_lower c" by blast
  have run: "checkBreakingNews news_env [''aapl''] ready_world =
     (Inr [], (harvest_world (news_query [''aapl'']))\<lparr>n_now := 15\<rparr>)"
    by (rule news_env_lower)
  have up: "mentions ''$AAPL beats est'' ''AAPL''"
    by (simp add: mentions_def str_includes_def sublist_code str_eval)
  from lowercase_symbol_never_emitted[OF h run] l run up show ?thesis by simp
qed


section \<open>What searchTwitter throws\<close>

text \<open>
  C2, amended. \<open>searchTwitter\<close> throws only out of the initialization it runs when the
  agent is not yet initialized: \<open>ChromeNotRunning\<close> when the connectivity check fails,
  and otherwise a failed command (opening the home page after the tab set-up failed) or a
  failed screenshot of \<open>init\<close>. From an initialized agent every call returns a
  sequence, whatever fails.
\<close>

theorem search_throws_only_from_init:
  assumes "searchTwitter E q m w = (r, w')"
  shows "(initialized w \<longrightarrow> (\<exists>tweets. r = Inr tweets)) \<and>
         (\<forall>e. r = Inl e \<longrightarrow>
            \<not> initialized w \<and> init E w = (Inl e, w') \<and>
            (if \<not> chrome_connected E then e = ChromeNotRunning
             else e = CommandFailed \<or> e = ScreenshotFailed))"
proof -
  let ?guarded = "io_catch (search_body E q m)
          (\<lambda>err. io_seq (io_catch cleanupScreenshots (\<lambda>e. io_return ()))
                  (io_catch (extractTweetsFallback E m)
                     (\<lambda>fallbackError. io_return [])))"
  from assms have run:
    "io_seq (\<lambda>w. if \<not> initialized w then init E w else (Inr (), w)) ?guarded w = (r, w')"
    by (simp add: searchTwitter_def)
  from run show ?thesis
  proof (cases rule: io_seq_cases)
    case (thrown e)
    then have "\<not> initialized w" "init E w = (Inl e, w')" by (auto split: if_splits)
    with thrown(2) init_throws[of E w e w'] show ?thesis by simp
  next
    case (went_on x w1)
    from search_handler_no_throw[of E q m] obtain tweets w2 where
      "?guarded w1 = (Inr tweets, w2)" unfolding no_throw_def by blast
    with went_on(2) show ?thesis by auto
  qed
qed


text \<open>
  C2, as the claim states it, fails: the browser is reachable (the connectivity check
  passes), the screenshot that \<open>init\<close> takes afterwards fails, and the call throws.
\<close>

theorem connected_but_throws_counterexample:
  "chrome_connected blind_env \<and>
   fst (searchTwitter blind_env ''AAPL'' 5 fresh_world) = Inl ScreenshotFailed"
  by (simp add: searchTwitter_def init_def find_twitter_tab_def set_initialized_def
        io_eval browser_eval input_eval)

theorem search_throws_only_from_init_witness:
  "initialized ready_world \<and>
   fst (searchTwitter news_env ''AAPL'' 5 ready_world) = Inr five_tweets \<and>
   \<not> initialized fresh_world \<and> \<not> chrome_connected offline_env \<and>
   fst (searchTwitter offline_env ''AAPL'' 5 fresh_world) = Inl ChromeNotRunning"
proof -
  have i: "initialized ready_world" "\<not> initialized fresh_world"
    "\<not> chrome_connected offline_env"
    by (simp_all add: input_eval)
  have r1: "searchTwitter news_env ''AAPL'' 5 ready_world =
      (Inr five_tweets, harvest_world ''AAPL'')"
    by (rule news_env_harvest)
  have r2: "searchTwitter offline_env ''AAPL'' 5 fresh_world =
      (fst (searchTwitter offline_env ''AAPL'' 5 fresh_world),
       snd (searchTwitter offline_env ''AAPL'' 5 fresh_world))"
    by simp
  have thrown: "\<exists>e. fst (searchTwitter offline_env ''AAPL'' 5 fresh_world) = Inl e"
    by (simp add: searchTwitter_def init_def io_eval browser_eval input_eval)
  from search_throws_only_from_init[OF r2] thrown i(3)
  have "fst (searchTwitter offline_env ''AAPL'' 5 fresh_world) = Inl ChromeNotRunning"
    by auto
  with search_throws_only_from_init[OF r1] i r1 show ?thesis by simp
qed


section \<open>Screenshots: tracked while they exist, gone at the end\<close>
















section \<open>C1: what a harvest returns\<close>

text \<open>An iteration of the extraction loop in which the oracle sees nothing leaves the
  session empty, and fifty of them end the loop.\<close>

lemma barren_iteration:
  assumes shots: "\<forall>k. shot_at E k \<noteq> ShotFailed" and scrolls: "\<forall>k. scroll_ok E k"
    and barren: "extract_at E (n_extract w) = Extracted (Some [])"
    and empty: "allTweets s = []" "lastTweetCount s = 0" and m: "0 < m" 
  shows "\<exists>s2 w5. allTweets s2 = [] \<and> lastTweetCount s2 = 0 \<and>
           n_extract w5 = Suc (n_extract w) \<and>
           io_bind (extract_step E m s) (\<lambda>s1.
             io_bind (aggressive_scroll E s1) (\<lambda>s2.
               if length (allTweets s2) < m
               then io_seq (browser_scroll E Down 3000) (io_seq (delay 4000) (k s2))
               else io_return (n, s2))) w = k s2 w5"
proof -
  from shots obtain p where p: "shot_at E (n_shot w) = Shot p"
    by (cases "shot_at E (n_shot w)") auto
  obtain w2 where w2: "take_screenshot E w = (Inr (), w2)" "n_extract w2 = n_extract w"
    using p by (cases "p = []") (simp_all add: take_screenshot_def log_def)
  let ?w3 = "log (ExtractTweets (m * 3)) (w2\<lparr>n_extract := Suc (n_extract w2)\<rparr>)"
  let ?s1 = "no_tweets_found s"
  have step: "extract_step E m s w = (Inr ?s1, ?w3)"
    using w2 barren
    by (simp add: extract_step_def io_catch_def io_seq_def io_bind_def io_return_def
          extractTweetsFromScreenshot_def record_extraction_def)
  have s1: "allTweets ?s1 = []" "lastTweetCount ?s1 = 0"
    using empty by (simp_all add: no_tweets_found_def)
  have n3: "n_extract ?w3 = Suc (n_extract w)" using w2(2) by (simp add: log_def)
  obtain s2 w4 where agg: "aggressive_scroll E ?s1 ?w3 = (Inr s2, w4)"
    and s2: "allTweets s2 = []" "lastTweetCount s2 = 0" and n4: "n_extract w4 = Suc (n_extract w)"
    using scrolls s1 n3
    by (cases "stuckCount ?s1 \<ge> 3 \<or> consecutiveEmptyScreenshots ?s1 \<ge> 5")
       (simp_all add: aggressive_scroll_def io_seq_def io_bind_def io_return_def
          browser_scroll_def delay_def log_def)
  let ?w5 = "log (Delay 4000) (log (Scroll Down 3000) (w4\<lparr>n_scroll := Suc (n_scroll w4)\<rparr>))"
  have tail: "io_seq (browser_scroll E Down 3000) (io_seq (delay 4000) (k s2)) w4 = k s2 ?w5"
    using scrolls by (simp add: io_seq_def io_bind_def browser_scroll_def delay_def)
  have n5: "n_extract ?w5 = Suc (n_extract w)" using n4 by (simp add: log_def)
  have "io_bind (extract_step E m s) (\<lambda>s1.
             io_bind (aggressive_scroll E s1) (\<lambda>s2.
               if length (allTweets s2) < m
               then io_seq (browser_scroll E Down 3000) (io_seq (delay 4000) (k s2))
               else io_return (n, s2))) w = k s2 ?w5"
    using step agg s2 m tail by (simp add: io_bind_def)
  with s2 n5 show ?thesis by blast
qed

lemma barren_loop:
  assumes shots: "\<forall>k. shot_at E k \<noteq> ShotFailed" and scrolls: "\<forall>k. scroll_ok E k"
    and barren: "\<forall>k < 50. extract_at E k = Extracted (Some [])" and m: "0 < m"
  shows "allTweets s = [] \<Longrightarrow> lastTweetCount s = 0 \<Longrightarrow> n_extract w = n \<Longrightarrow> n \<le> 50 \<Longrightarrow>
     \<exists>s' w'. extraction_loop E m n s w = (Inr (50, s'), w') \<and> allTweets s' = [] \<and>
        n_extract w' = 50"
proof (induction "50 - n" arbitrary: n s w)
  case 0
  then have "n = 50" by simp
  then show ?case using "0.prems"
    by (subst extraction_loop.simps) (simp add: io_return_def)
next
  case (Suc d)
  then have n: "n < 50" by simp
  with barren Suc.prems(3) have b: "extract_at E (n_extract w) = Extracted (Some [])" by simp
  from barren_iteration[OF shots scrolls b Suc.prems(1,2) m,
      where k = "extraction_loop E m (Suc n)" and n = n]
  obtain s2 w5 where s2: "allTweets s2 = []" "lastTweetCount s2 = 0"
    and n5: "n_extract w5 = Suc (n_extract w)"
    and eq: "io_bind (extract_step E m s) (\<lambda>s1.
             io_bind (aggressive_scroll E s1) (\<lambda>s2.
               if length (allTweets s2) < m
               then io_seq (browser_scroll E Down 3000)
                      (io_seq (delay 4000) (extraction_loop E m (Suc n) s2))
               else io_return (n, s2))) w = extraction_loop E m (Suc n) s2 w5"
    by blast
  have unfold: "extraction_loop E m n s w = extraction_loop E m (Suc n) s2 w5"
    using n m Suc.prems(1) eq by (subst extraction_loop.simps) simp
  have "\<exists>s' w'. extraction_loop E m (Suc n) s2 w5 = (Inr (50, s'), w') \<and>
      allTweets s' = [] \<and> n_extract w' = 50"
  proof (rule Suc.hyps(1))
    show "d = 50 - Suc n" using Suc.hyps(2) by simp
    show "allTweets s2 = []" "lastTweetCount s2 = 0" by fact+
    show "n_extract w5 = Suc n" using n5 Suc.prems(3) by simp
    show "Suc n \<le> 50" using n by simp
  qed
  with unfold show ?case by simp
qed

text \<open>Two runs that return the same text twice: the oracle sees nothing for fifty
  screenshots and then, in the final extraction of lines 349-369, the same post twice; and
  the search page cannot be opened, so the structural snapshot's articles are returned.\<close>

lemma late_env_harvest:
  "fst (searchTwitter late_env ''AAPL'' 5 ready_world) =
     Inr [tweet_of 0 ''Fed holds rates'', tweet_of 1 ''Fed holds rates'']"
proof -
  have "\<exists>w2. load_results late_env ''AAPL'' 5 ready_world = (Inr (), w2) \<and> n_extract w2 = 0"
    by (simp add: load_results_def verify_before_extraction_def scroll_times_unfold
          verify_loop.simps io_eval browser_eval ready_world_def late_env_sel)
  then obtain w2 where load: "load_results late_env ''AAPL'' 5 ready_world = (Inr (), w2)"
    and n2: "n_extract w2 = 0" by blast
  have "\<exists>s' w'. extraction_loop late_env 5 0 new_session w2 = (Inr (50, s'), w') \<and>
      allTweets s' = [] \<and> n_extract w' = 50"
    by (rule barren_loop) (simp_all add: late_env_sel new_session_def n2)
  then obtain s' w3 where loop: "extraction_loop late_env 5 0 new_session w2 = (Inr (50, s'), w3)"
    and e: "allTweets s' = []" and n3: "n_extract w3 = 50" by blast
  have rescan: "rescan late_env 5 50 s' w3 = (Inr s', w3)"
    by (simp add: rescan_def io_return_def)
  have fin: "fst (finish late_env 5 s' w3) =
      Inr [tweet_of 0 ''Fed holds rates'', tweet_of 1 ''Fed holds rates'']"
    using e n3
    by (simp add: finish_def Let_def io_eval browser_eval late_env_sel post_def tweet_of_def
          strip_at_def split_beta)
  have "fst (search_body late_env ''AAPL'' 5 ready_world) =
      Inr [tweet_of 0 ''Fed holds rates'', tweet_of 1 ''Fed holds rates'']"
    using load loop rescan fin
    by (simp add: search_body_def io_seq_def io_bind_def split_beta)
  then show ?thesis
    by (simp add: searchTwitter_def io_seq_def io_bind_def io_catch_def ready_world_def
          split_beta split: sum.splits)
qed

lemma stale_env_harvest:
  "fst (searchTwitter stale_env ''AAPL'' 5 ready_world) =
     Inr [fallback_tweet_of 0 ''Fed holds rates'', fallback_tweet_of 1 ''Fed holds rates'']"
  by (simp add: searchTwitter_def search_body_def load_results_def
        extractTweetsFallback_def is_tweet_element_def io_eval browser_eval input_eval Let_def)

text \<open>
  C1, as stated, fails: both runs return normally for the target 5, and each returns two
  different items with the same dedup key.
\<close>

theorem fallback_duplicates_counterexample:
  "fst (searchTwitter late_env ''AAPL'' 5 ready_world) =
     Inr [tweet_of 0 ''Fed holds rates'', tweet_of 1 ''Fed holds rates''] \<and>
   tweet_of 0 ''Fed holds rates'' \<noteq> tweet_of 1 ''Fed holds rates'' \<and>
   dedup_key (tw_text (tweet_of 0 ''Fed holds rates'')) =
     dedup_key (tw_text (tweet_of 1 ''Fed holds rates'')) \<and>
   fst (searchTwitter stale_env ''AAPL'' 5 ready_world) =
     Inr [fallback_tweet_of 0 ''Fed holds rates'', fallback_tweet_of 1 ''Fed holds rates''] \<and>
   fallback_tweet_of 0 ''Fed holds rates'' \<noteq> fallback_tweet_of 1 ''Fed holds rates'' \<and>
   dedup_key (tw_text (fallback_tweet_of 0 ''Fed holds rates'')) =
     dedup_key (tw_text (fallback_tweet_of 1 ''Fed holds rates''))"
  using late_env_harvest stale_env_harvest
  by (simp add: tweet_of_def fallback_tweet_of_def)

text \<open>
  C1, amended. Whenever \<open>searchTwitter\<close> returns normally, for any target, the returned
  sequence is no longer than the target; its items have pairwise different dedup keys
  unless the call went through the final extraction (an oracle call with the target itself
  as the limit, where the loop asks for three times the target) or through the structural
  snapshot. During the session the accumulated list is never longer than the target, its
  keys are pairwise different and \<open>seen\<close> is exactly the set of its keys: this holds of the
  new session and is kept by every merge of the loop and of the rescan, hence by both loops.
\<close>

theorem harvest_bounded_and_distinct:
  assumes "searchTwitter E q maxResults w = (Inr tweets, w')"
  shows "length tweets \<le> maxResults \<and>
     (distinct (map (\<lambda>x. dedup_key (tw_text x)) tweets) \<or>
      logged (trace w) (ExtractTweets maxResults) w' \<or> logged (trace w) Snapshot w') \<and>
     session_inv maxResults new_session \<and>
     (\<forall>s ex. session_inv maxResults s \<and> length (allTweets s) < maxResults \<longrightarrow>
        session_inv maxResults (record_extraction maxResults ex s) \<and>
        session_inv maxResults (record_retry maxResults ex s)) \<and>
     (\<forall>n s v n' s' v'. session_inv maxResults s \<and>
        extraction_loop E maxResults n s v = (Inr (n', s'), v') \<longrightarrow> session_inv maxResults s') \<and>
     (\<forall>n s v s' v'. session_inv maxResults s \<and>
        rescan E maxResults n s v = (Inr s', v') \<longrightarrow> session_inv maxResults s')"
  using searchTwitter_result[OF assms] new_session_inv[of maxResults]
    record_extraction_inv[of maxResults] record_retry_inv[of maxResults]
    extraction_loop_inv[of maxResults _ E] rescan_inv[of maxResults _ E]
  by blast

theorem harvest_bounded_and_distinct_witness:
  "searchTwitter news_env ''AAPL'' 5 ready_world = (Inr five_tweets, harvest_world ''AAPL'') \<and>
   length five_tweets \<le> 5 \<and>
   distinct (map (\<lambda>x. dedup_key (tw_text x)) five_tweets) \<and>
   session_inv 5 one_post_session \<and> length (allTweets one_post_session) < 5 \<and>
   session_inv 5 (record_extraction 5 (Extracted (Some five_posts)) one_post_session) \<and>
   session_inv 5 (record_retry 5 (Extracted (Some five_posts)) one_post_session)"
proof -
  have run: "searchTwitter news_env ''AAPL'' 5 ready_world =
      (Inr five_tweets, harvest_world ''AAPL'')"
    by (rule news_env_harvest)
  have n1: "\<not> logged (trace ready_world) (ExtractTweets 5) (harvest_world ''AAPL'')"
    by (simp add: logged_def ready_world_def harvest_world_def harvest_trace_def)
  have n2: "\<not> logged (trace ready_world) Snapshot (harvest_world ''AAPL'')"
    by (simp add: logged_def ready_world_def harvest_world_def harvest_trace_def)
  have inv: "session_inv 5 one_post_session"
    by (simp add: session_inv_def one_post_session_def post_def key_fed)
  have lt: "length (allTweets one_post_session) < 5"
    by (simp add: one_post_session_def)
  note th = harvest_bounded_and_distinct[OF run]
  from th have len: "length five_tweets \<le> 5" by (rule conjunct1)
  from th n1 n2 have d: "distinct (map (\<lambda>x. dedup_key (tw_text x)) five_tweets)" by blast
  from th inv lt have
    "session_inv 5 (record_extraction 5 (Extracted (Some five_posts)) one_post_session) \<and>
     session_inv 5 (record_retry 5 (Extracted (Some five_posts)) one_post_session)"
    by blast
  with run len d inv lt show ?thesis by blast
qed


section \<open>C9: the breaking-news harvest\<close>

text \<open>The breaking-news check of the five harvested posts, for four upper-case
  symbols.\<close>

lemma news_env_upper:
  "checkBreakingNews news_env [''AAPL'', ''TSLA'', ''MSFT'', ''NVDA''] ready_world =
     (Inr [\<lparr>symbol = ''AAPL'', headline = ''$AAPL beats est'', bn_author = ''FirstSquawk'',
            age_minutes = Some 4, is_breaking = True\<rparr>,
           \<lparr>symbol = ''TSLA'', headline = ''$TSLA recall news'', bn_author = ''FirstSquawk'',
            age_minutes = Some 4, is_breaking = True\<rparr>],
      (harvest_world (news_query [''AAPL'', ''TSLA'', ''MSFT'']))\<lparr>n_now := 15\<rparr>)"
  by (simp add: checkBreakingNews_def Let_def news_env_harvest io_bind_def)
     (simp add: five_tweets_def tweet_of_def harvest_world_def io_eval date_now_def
        news_eval str_eval env_eval)

text \<open>
  C9. \<open>checkBreakingNews\<close> returns at most 5 items, each for one of the first three
  requested symbols. For a non-empty request it is one harvest, with the target 5 and the
  query built from the first three symbols, followed by the news loop over what the
  harvest returned; the search page of that query is opened. The query is the cashtags
  joined by OR, the three allow-listed accounts, and the exclusion of retweets.
\<close>

theorem breaking_news_harvest:
  assumes "checkBreakingNews E symbols w = (Inr news, w')"
  shows "length news \<le> 5 \<and>
     (\<forall>item \<in> set news. symbol item \<in> set (take 3 symbols)) \<and>
     (symbols \<noteq> [] \<longrightarrow>
        checkBreakingNews E symbols =
          io_bind (searchTwitter E (news_query (take 3 symbols)) 5)
            (news_loop E (take 3 symbols)) \<and>
        (\<exists>tweets w1. searchTwitter E (news_query (take 3 symbols)) 5 w = (Inr tweets, w1) \<and>
           news_loop E (take 3 symbols) tweets w1 = (Inr news, w')) \<and>
        logged (trace w) (Open (SearchUrl (news_query (take 3 symbols)))) w') \<and>
     (\<forall>a b c. news_query [a, b, c] =
        ''($'' @ a @ '' OR $'' @ b @ '' OR $'' @ c @
        '') (from:FirstSquawk OR from:DeItaone OR from:Newsquawk) -is:retweet'') \<and>
     (\<forall>a. news_query [a] =
        ''($'' @ a @ '') (from:FirstSquawk OR from:DeItaone OR from:Newsquawk) -is:retweet'')"
proof -
  have items: "\<forall>item \<in> set news. symbol item \<in> set (take 3 symbols)"
  proof
    fix item assume "item \<in> set news"
    from checkBreakingNews_items[OF assms this] obtain tweet now where
      "classify_tweet E (take 3 symbols) now tweet = Some item" by blast
    from classify_symbol_mentioned[OF this] show "symbol item \<in> set (take 3 symbols)"
      by simp
  qed
  have q3: "\<forall>a b c. news_query [a, b, c] =
        ''($'' @ a @ '' OR $'' @ b @ '' OR $'' @ c @
        '') (from:FirstSquawk OR from:DeItaone OR from:Newsquawk) -is:retweet''"
    by (simp add: news_query_def)
  have q1: "\<forall>a. news_query [a] =
        ''($'' @ a @ '') (from:FirstSquawk OR from:DeItaone OR from:Newsquawk) -is:retweet''"
    by (simp add: news_query_def)
  show ?thesis
  proof (cases "symbols = []")
    case True
    with assms have "news = []" by (simp add: checkBreakingNews_def io_return_def)
    with True items q3 q1 show ?thesis by simp
  next
    case False
    from checkBreakingNews_run[OF assms False] obtain tweets w1 where
      h: "searchTwitter E (news_query (take 3 symbols)) 5 w = (Inr tweets, w1)"
      and l: "news_loop E (take 3 symbols) tweets w1 = (Inr news, w')"
      by blast
    from searchTwitter_result[OF h] have "length tweets \<le> 5"
      and o: "logged (trace w) (Open (SearchUrl (news_query (take 3 symbols)))) w1"
      by simp_all
    with news_loop_length[OF l] have len: "length news \<le> 5" by simp
    from pres_news_loop[OF prims_pres_logged, of "trace w" _ E "take 3 symbols" tweets] o l
    have o': "logged (trace w) (Open (SearchUrl (news_query (take 3 symbols)))) w'"
      unfolding pres_def by blast
    from False have eq: "checkBreakingNews E symbols =
        io_bind (searchTwitter E (news_query (take 3 symbols)) 5)
          (news_loop E (take 3 symbols))"
      by (simp add: checkBreakingNews_def Let_def)
    from h l have "\<exists>tweets w1.
        searchTwitter E (news_query (take 3 symbols)) 5 w = (Inr tweets, w1) \<and>
        news_loop E (take 3 symbols) tweets w1 = (Inr news, w')" by blast
    with len items eq o' q3 q1 show ?thesis by blast
  qed
qed

theorem breaking_news_harvest_witness:
  "checkBreakingNews news_env [''AAPL'', ''TSLA'', ''MSFT'', ''NVDA''] ready_world =
     (Inr [\<lparr>symbol = ''AAPL'', headline = ''$AAPL beats est'', bn_author = ''FirstSquawk'',
            age_minutes = Some 4, is_breaking = True\<rparr>,
           \<lparr>symbol = ''TSLA'', headline = ''$TSLA recall news'', bn_author = ''FirstSquawk'',
            age_minutes = Some 4, is_breaking = True\<rparr>],
      (harvest_world (news_query [''AAPL'', ''TSLA'', ''MSFT'']))\<lparr>n_now := 15\<rparr>) \<and>
   ''TSLA'' \<in> set (take 3 [''AAPL'', ''TSLA'', ''MSFT'', ''NVDA'']) \<and>
   ''NVDA'' \<notin> set (take 3 [''AAPL'', ''TSLA'', ''MSFT'', ''NVDA'']) \<and>
   logged (trace ready_world)
     (Open (SearchUrl (news_query (take 3 [''AAPL'', ''TSLA'', ''MSFT'', ''NVDA'']))))
     ((harvest_world (news_query [''AAPL'', ''TSLA'', ''MSFT'']))\<lparr>n_now := 15\<rparr>) \<and>
   news_query [''AAPL'', ''TSLA'', ''MSFT''] =
     ''($AAPL OR $TSLA OR $MSFT) (from:FirstSquawk OR from:DeItaone OR from:Newsquawk) -is:retweet''"
proof -
  let ?tsla = "\<lparr>symbol = ''TSLA'', headline = ''$TSLA recall news'',
     bn_author = ''FirstSquawk'', age_minutes = Some (4::int), is_breaking = True\<rparr>"
  let ?news = "[\<lparr>symbol = ''AAPL'', headline = ''$AAPL beats est'',
     bn_author = ''FirstSquawk'', age_minutes = Some (4::int), is_breaking = True\<rparr>, ?tsla]"
  let ?symbols = "[''AAPL'', ''TSLA'', ''MSFT'', ''NVDA'']"
  let ?w' = "(harvest_world (news_query [''AAPL'', ''TSLA'', ''MSFT'']))\<lparr>n_now := 15\<rparr>"
  have run: "checkBreakingNews news_env ?symbols ready_world = (Inr ?news, ?w')"
    by (rule news_env_upper)
  note th = breaking_news_harvest[OF run]
  have ne: "?symbols \<noteq> []" by simp
  have "?tsla \<in> set ?news" by simp
  with th have a: "symbol ?tsla \<in> set (take 3 ?symbols)" by blast
  have b: "''NVDA'' \<notin> set (take 3 ?symbols)" by simp
  from th ne have c: "logged (trace ready_world)
      (Open (SearchUrl (news_query (take 3 ?symbols)))) ?w'" by blast
  from th have d: "news_query [''AAPL'', ''TSLA'', ''MSFT''] =
      ''($'' @ ''AAPL'' @ '' OR $'' @ ''TSLA'' @ '' OR $'' @ ''MSFT'' @
      '') (from:FirstSquawk OR from:DeItaone OR from:Newsquawk) -is:retweet''" by blast
  from a have a': "''TSLA'' \<in> set (take 3 ?symbols)" by simp
  from d have d': "news_query [''AAPL'', ''TSLA'', ''MSFT''] =
     ''($AAPL OR $TSLA OR $MSFT) (from:FirstSquawk OR from:DeItaone OR from:Newsquawk) -is:retweet''"
    by simp
  from run a' b c d' show ?thesis by blast
qed


section \<open>C3: a zero \<open>maxResults\<close> at the front door\<close>

text \<open>What a harvest with the target 0 does: it loads the search page, skips both loops,
  asks the oracle once more and returns none of what it sees.\<close>

lemma zero_target_harvest:
  "\<exists>w'. searchTwitter news_env ''AAPL'' 0 ready_world = (Inr [], w') \<and>
      logged [] (Open (SearchUrl ''AAPL'')) w' \<and> logged [] (ExtractTweets 0) w'"
  by (simp add: search_eval finish_def rescan_def scroll_times_unfold io_eval browser_eval
        env_eval ready_world_def five_posts_def post_def logged_def Let_def)

text \<open>
  C3. The handler's test \<open>maxResults && (...)\<close> is skipped for a falsy value, so a request
  with \<open>maxResults = 0\<close> runs the harvest with the target 0 and is answered with success
  and an empty list, where 51 and -1 are answered with the 400 response whose message
  asks for a number between 1 and 50.
\<close>

theorem zero_max_results_is_harvested:
  "search_handler E \<lparr>req_query = Some (JStr (c # q)), req_maxResults = Some (JNum 0)\<rparr> w =
     (case searchTwitter E (c # q) 0 w of
        (Inr tweets, w') \<Rightarrow> (Ok200 tweets (length tweets), w')
      | (Inl err, w') \<Rightarrow> (Error500 err, w')) \<and>
   search_handler E \<lparr>req_query = Some (JStr (c # q)), req_maxResults = Some (JNum 51)\<rparr> w =
     (BadRequest400 ''maxResults must be a number between 1 and 50'', w) \<and>
   search_handler E \<lparr>req_query = Some (JStr (c # q)), req_maxResults = Some (JNum (- 1))\<rparr> w =
     (BadRequest400 ''maxResults must be a number between 1 and 50'', w) \<and>
   (\<exists>w'. search_handler news_env
        \<lparr>req_query = Some (JStr ''AAPL''), req_maxResults = Some (JNum 0)\<rparr> ready_world =
        (Ok200 [] 0, w') \<and>
      logged [] (Open (SearchUrl ''AAPL'')) w' \<and> logged [] (ExtractTweets 0) w')"
proof -
  from zero_target_harvest obtain w' where
    "searchTwitter news_env ''AAPL'' 0 ready_world = (Inr [], w')"
    "logged [] (Open (SearchUrl ''AAPL'')) w'" "logged [] (ExtractTweets 0) w'" by blast
  then have "search_handler news_env
        \<lparr>req_query = Some (JStr ''AAPL''), req_maxResults = Some (JNum 0)\<rparr> ready_world =
        (Ok200 [] 0, w') \<and>
      logged [] (Open (SearchUrl ''AAPL'')) w' \<and> logged [] (ExtractTweets 0) w'"
    by (simp add: search_handler_def)
  then show ?thesis by (auto simp: search_handler_def)
qed

end
